theory Spec2Isabelle
  imports Complex_Main "HOL-Library.Word"
begin

unbundle bit_operations_syntax

section \<open>Common conventions\<close>

text \<open>
  Python integers are unbounded and are modelled as \<open>int\<close>. A \<open>bytes\<close> or
  \<open>bytearray\<close> object is a list of integers; Python keeps every element in the range
  0..255, which the model states as the predicate \<open>is_bytes\<close> where a property needs it.
  Every exception the transcoder can raise is a constructor of \<open>error\<close>, and a function
  that can raise returns \<open>error + 'a\<close> with \<open>Inl\<close> carrying the exception.
\<close>

datatype error =
    EOFError
  | ValueError
  | IndexError
  | KeyError
  | AssertionError
  | StructError
  | StopIteration
  | FileNotFoundError
  | TypeError
  | ZeroDivisionError

definition is_byte :: "int \<Rightarrow> bool" where
  "is_byte b = (0 \<le> b \<and> b < 256)"

definition is_bytes :: "int list \<Rightarrow> bool" where
  "is_bytes bs = list_all is_byte bs"

text \<open>
  A Python \<open>dict\<close> keeps its keys in insertion order, and the code iterates over some of
  its dicts, so a dict is an association list: assigning to a key that is present
  replaces the value in place, assigning to a new key appends. Reading a key that is
  absent raises \<open>KeyError\<close>.
\<close>

fun dict_set :: "('k \<times> 'v) list \<Rightarrow> 'k \<Rightarrow> 'v \<Rightarrow> ('k \<times> 'v) list" where
  "dict_set [] k v = [(k, v)]"
| "dict_set ((k', v') # d) k v =
     (if k' = k then (k, v) # d else (k', v') # dict_set d k v)"

definition dict_get :: "('k \<times> 'v) list \<Rightarrow> 'k \<Rightarrow> error + 'v" where
  "dict_get d k = (case map_of d k of None \<Rightarrow> Inl KeyError | Some v \<Rightarrow> Inr v)"

text \<open>The file system: the content of each path that exists.\<close>

type_synonym files = "string \<Rightarrow> int list option"

section \<open>utils.py\<close>

text \<open>Marker codes (the byte after 0xFF) and the zig-zag index table.\<close>

definition SOI :: int where "SOI = 216"
definition EOI :: int where "EOI = 217"
definition APP0 :: int where "APP0 = 224"
definition DQT :: int where "DQT = 219"
definition SOF0 :: int where "SOF0 = 192"
definition DHT :: int where "DHT = 196"
definition SOS :: int where "SOS = 218"

definition ZIGZAG_ORDER :: "nat list" where
  "ZIGZAG_ORDER =
    [ 0,  1,  5,  6, 14, 15, 27, 28,
      2,  4,  7, 13, 16, 26, 29, 42,
      3,  8, 12, 17, 25, 30, 41, 43,
      9, 11, 18, 24, 31, 40, 44, 53,
     10, 19, 23, 32, 39, 45, 52, 54,
     20, 22, 33, 38, 46, 51, 55, 60,
     21, 34, 37, 47, 50, 56, 59, 61,
     35, 36, 48, 49, 57, 58, 62, 63]"

text \<open>Sequencing of computations that may raise: the first exception wins.\<close>

definition bind_e :: "error + 'a \<Rightarrow> ('a \<Rightarrow> error + 'b) \<Rightarrow> error + 'b" where
  "bind_e x f = (case x of Inl e \<Rightarrow> Inl e | Inr v \<Rightarrow> f v)"

section \<open>bitstream.py\<close>

subsection \<open>BitReader\<close>

record BitReader =
  data :: "int list"
  bytepos :: nat
  bitpos :: nat

definition BitReader_init :: "int list \<Rightarrow> BitReader" where
  "BitReader_init d = \<lparr>data = d, bytepos = 0, bitpos = 0\<rparr>"

text \<open>
  \<open>read_bit\<close>: raises \<open>EOFError\<close> when the byte cursor is past the data; a step that
  completes a byte whose value is 0xFF skips a following 0x00. A shift by a negative
  amount raises \<open>ValueError\<close> in Python; it cannot happen from \<open>BitReader_init\<close>, where
  \<open>bitpos\<close> stays below 8.
\<close>

definition read_bit :: "BitReader \<Rightarrow> error + (int \<times> BitReader)" where
  "read_bit r =
     (if bytepos r \<ge> length (data r) then Inl EOFError
      else if bitpos r > 7 then Inl ValueError
      else
        let byte = data r ! bytepos r;
            bt = drop_bit (7 - bitpos r) byte AND 1;
            r1 = r\<lparr>bitpos := bitpos r + 1\<rparr>
        in if bitpos r1 = 8 then
             let r2 = r1\<lparr>bitpos := 0, bytepos := bytepos r1 + 1\<rparr>
             in if byte = 255 \<and> bytepos r2 < length (data r2) \<and> data r2 ! bytepos r2 = 0
                then Inr (bt, r2\<lparr>bytepos := bytepos r2 + 1\<rparr>)
                else Inr (bt, r2)
           else Inr (bt, r1))"

text \<open>The loop of \<open>read_bits\<close>: \<open>k\<close> iterations remain, \<open>val\<close> is the value so far.\<close>

fun read_bits_loop :: "nat \<Rightarrow> int \<Rightarrow> BitReader \<Rightarrow> error + (int \<times> BitReader)" where
  "read_bits_loop 0 val r = Inr (val, r)"
| "read_bits_loop (Suc k) val r =
     (case read_bit r of
        Inl e \<Rightarrow> Inl e
      | Inr (b, r') \<Rightarrow> read_bits_loop k (push_bit 1 val OR b) r')"

text \<open>\<open>range(n)\<close> runs \<open>nat n\<close> times: no iteration for \<open>n \<le> 0\<close>.\<close>

definition read_bits :: "int \<Rightarrow> BitReader \<Rightarrow> error + (int \<times> BitReader)" where
  "read_bits n r = read_bits_loop (nat n) 0 r"

subsection \<open>BitWriter\<close>

record BitWriter =
  buffer :: "int list"
  curr_byte :: int
  wbitpos :: nat

definition BitWriter_init :: BitWriter where
  "BitWriter_init = \<lparr>buffer = [], curr_byte = 0, wbitpos = 0\<rparr>"

definition flush_curr_byte :: "BitWriter \<Rightarrow> BitWriter" where
  "flush_curr_byte w =
     (let byte = curr_byte w AND 255;
          buf = buffer w @ [byte];
          buf' = (if byte = 255 then buf @ [0] else buf)
      in \<lparr>buffer = buf', curr_byte = 0, wbitpos = 0\<rparr>)"

definition write_bit :: "BitWriter \<Rightarrow> int \<Rightarrow> BitWriter" where
  "write_bit w bt =
     (let w1 = w\<lparr>curr_byte := push_bit 1 (curr_byte w) OR (bt AND 1),
                 wbitpos := wbitpos w + 1\<rparr>
      in if wbitpos w1 = 8 then flush_curr_byte w1 else w1)"

text \<open>\<open>range(n - 1, -1, -1)\<close> is the list of shifts \<open>n - 1, ..., 0\<close>, empty for \<open>n \<le> 0\<close>.\<close>

definition write_bits :: "BitWriter \<Rightarrow> int \<Rightarrow> int \<Rightarrow> BitWriter" where
  "write_bits w n val =
     fold (\<lambda>shift w'. write_bit w' (drop_bit shift val AND 1)) (rev [0..<nat n]) w"

definition flush :: "BitWriter \<Rightarrow> BitWriter" where
  "flush w =
     (if wbitpos w > 0
      then flush_curr_byte (w\<lparr>curr_byte := push_bit (8 - wbitpos w) (curr_byte w)\<rparr>)
      else w)"

text \<open>\<open>get_bytes\<close> flushes the writer and returns a copy of its buffer.\<close>

definition get_bytes :: "BitWriter \<Rightarrow> int list \<times> BitWriter" where
  "get_bytes w = (let w' = flush w in (buffer w', w'))"

text \<open>Writing a sequence of (width, value) fields, and reading a sequence of widths.\<close>

definition write_fields :: "BitWriter \<Rightarrow> (int \<times> int) list \<Rightarrow> BitWriter" where
  "write_fields w fs = fold (\<lambda>(n, v) w'. write_bits w' n v) fs w"

fun read_fields :: "BitReader \<Rightarrow> int list \<Rightarrow> error + (int list \<times> BitReader)" where
  "read_fields r [] = Inr ([], r)"
| "read_fields r (n # ns) =
     (case read_bits n r of
        Inl e \<Rightarrow> Inl e
      | Inr (v, r') \<Rightarrow>
          (case read_fields r' ns of
             Inl e \<Rightarrow> Inl e
           | Inr (vs, r'') \<Rightarrow> Inr (v # vs, r'')))"

subsection \<open>Bit-level view of the byte stream\<close>

text \<open>
  The round trip is proved against the sequence of bits a writer has accepted:
  \<open>bits_of n v\<close> are the \<open>n\<close> low bits of \<open>v\<close>, most significant first;
  \<open>val_acc\<close> folds bits back into a value; \<open>stuff\<close> inserts 0x00 after each 0xFF.
  \<open>winv\<close> and \<open>rinv\<close> relate a writer and a reader to that sequence.
\<close>

definition bits_of :: "nat \<Rightarrow> int \<Rightarrow> int list" where
  "bits_of n v = map (\<lambda>s. drop_bit s v AND 1) (rev [0..<n])"

definition val_acc :: "int \<Rightarrow> int list \<Rightarrow> int" where
  "val_acc a bs = foldl (\<lambda>x b. push_bit 1 x OR b) a bs"

definition stuff :: "int list \<Rightarrow> int list" where
  "stuff bs = concat (map (\<lambda>b. if b = 255 then [255, 0] else [b]) bs)"

definition is_bit :: "int \<Rightarrow> bool" where
  "is_bit b = (b = 0 \<or> b = 1)"

definition all_bits :: "int list \<Rightarrow> int list" where
  "all_bits bs = concat (map (bits_of 8) bs)"

definition winv :: "BitWriter \<Rightarrow> int list \<Rightarrow> bool" where
  "winv w bits =
     (\<exists>bs pend. buffer w = stuff bs \<and> list_all is_bit pend \<and> length pend = wbitpos w \<and>
        wbitpos w < 8 \<and> curr_byte w = val_acc 0 pend \<and> bits = all_bits bs @ pend)"

definition rinv :: "BitReader \<Rightarrow> int list \<Rightarrow> bool" where
  "rinv r bits =
     (\<exists>bs. drop (bytepos r) (data r) = stuff bs \<and> bitpos r < 8 \<and>
        bits = drop (bitpos r) (all_bits bs))"

definition field_bits :: "(int \<times> int) list \<Rightarrow> int list" where
  "field_bits fs = concat (map (\<lambda>(n, v). bits_of (nat n) v) fs)"

section \<open>zigzag.py\<close>

text \<open>
  A block is a list of rows. \<open>zigzag_order\<close> raises \<open>ValueError\<close> unless the block has
  8 rows of 8 entries; it flattens the block row by row and picks the entries in the
  order of \<open>ZIGZAG_ORDER\<close>.
\<close>

definition is_8x8 :: "int list list \<Rightarrow> bool" where
  "is_8x8 block = (length block = 8 \<and> \<not> list_ex (\<lambda>row. length row \<noteq> 8) block)"

definition zigzag_order :: "int list list \<Rightarrow> error + int list" where
  "zigzag_order block =
     (if length block \<noteq> 8 \<or> list_ex (\<lambda>row. length row \<noteq> 8) block then Inl ValueError
      else
        let flat = concat (map (\<lambda>i. map (\<lambda>j. block ! i ! j) [0..<8]) [0..<8])
        in Inr (map (\<lambda>idx. flat ! idx) ZIGZAG_ORDER))"

text \<open>
  \<open>inverse_zigzag\<close> raises \<open>ValueError\<close> unless its argument has 64 entries; it stores
  entry \<open>i\<close> at position \<open>ZIGZAG_ORDER[i]\<close> of a list of 64 zeros and cuts the list into
  8 rows.
\<close>

definition inverse_zigzag :: "int list \<Rightarrow> error + int list list" where
  "inverse_zigzag arr =
     (if length arr \<noteq> 64 then Inl ValueError
      else
        let flat = fold (\<lambda>(i, idx) f. f[idx := arr ! i]) (enumerate 0 ZIGZAG_ORDER)
                     (replicate 64 0)
        in Inr (map (\<lambda>r. map (\<lambda>c. flat ! (r * 8 + c)) [0..<8]) [0..<8]))"

text \<open>
  For the inverse law: \<open>scatter\<close> is the loop of \<open>inverse_zigzag\<close> with its counter and
  target list as arguments, \<open>rows_of\<close> cuts a list of 64 entries into rows and \<open>flatten\<close>
  lists the entries of a block row by row.
\<close>

definition scatter :: "int list \<Rightarrow> nat \<Rightarrow> nat list \<Rightarrow> int list \<Rightarrow> int list" where
  "scatter arr n zs f = fold (\<lambda>(i, idx) f. f[idx := arr ! i]) (enumerate n zs) f"

definition rows_of :: "int list \<Rightarrow> int list list" where
  "rows_of flat = map (\<lambda>r. map (\<lambda>c. flat ! (r * 8 + c)) [0..<8]) [0..<8]"

definition flatten :: "int list list \<Rightarrow> int list" where
  "flatten block = concat (map (\<lambda>i. map (\<lambda>j. block ! i ! j) [0..<8]) [0..<8])"

section \<open>rle.py\<close>

text \<open>
  The symbols of a block. Python writes them as tuples: \<open>("DC", v)\<close>, \<open>("ZRL", 0)\<close>,
  \<open>("EOB", 0)\<close> and \<open>(run, size, amplitude)\<close>.
\<close>

datatype symbol = DC int | ZRL | EOB | AC int int int

text \<open>\<open>int.bit_length\<close>: the number of bits of the absolute value.\<close>

function bit_length :: "int \<Rightarrow> int" where
  "bit_length n = (if n = 0 then 0 else 1 + bit_length (\<bar>n\<bar> div 2))"
  by pat_completeness auto
termination
  by (relation "measure (\<lambda>n. nat \<bar>n\<bar>)") auto

declare bit_length.simps [simp del]

text \<open>The inner loop \<open>while run > 15\<close> of \<open>encode_ac\<close>.\<close>

function emit_zrl :: "symbol list \<Rightarrow> int \<Rightarrow> symbol list \<times> int" where
  "emit_zrl out run = (if run > 15 then emit_zrl (out @ [ZRL]) (run - 16) else (out, run))"
  by pat_completeness auto
termination
  by (relation "measure (\<lambda>(out, run). nat run)") auto

declare emit_zrl.simps [simp del]

text \<open>The loop over \<open>coeffs[1:]\<close>: the state is the zero run and the output list.\<close>

fun encode_ac_loop :: "int list \<Rightarrow> int \<Rightarrow> symbol list \<Rightarrow> symbol list \<times> int" where
  "encode_ac_loop [] run out = (out, run)"
| "encode_ac_loop (c # cs) run out =
     (if c = 0 then encode_ac_loop cs (run + 1) out
      else
        let (out1, run1) = emit_zrl out run;
            sz = (if c > 0 then bit_length c else bit_length (- c));
            out2 = out1 @ [AC run1 sz c]
        in encode_ac_loop cs 0 out2)"

definition encode_ac :: "int list \<Rightarrow> error + symbol list" where
  "encode_ac coeffs =
     (if length coeffs \<noteq> 64 then Inl ValueError
      else
        let dc = coeffs ! 0;
            (out, run) = encode_ac_loop (drop 1 coeffs) 0 [DC dc]
        in Inr (if run > 0 then out @ [EOB] else out))"

text \<open>
  \<open>decode_ac\<close> keeps a list of 64 coefficients and an index. \<open>fill_zeros k\<close> is the loop
  \<open>for i in range(k)\<close> that writes a zero and stops at index 64; \<open>fill_rest\<close> is the loop
  \<open>while idx < 64\<close>.
\<close>

fun fill_zeros :: "nat \<Rightarrow> int list \<times> nat \<Rightarrow> int list \<times> nat" where
  "fill_zeros 0 s = s"
| "fill_zeros (Suc k) (coeffs, idx) =
     (if idx \<ge> 64 then (coeffs, idx) else fill_zeros k (coeffs[idx := 0], idx + 1))"

function fill_rest :: "int list \<times> nat \<Rightarrow> int list \<times> nat" where
  "fill_rest (coeffs, idx) =
     (if idx < 64 then fill_rest (coeffs[idx := 0], idx + 1) else (coeffs, idx))"
  by pat_completeness auto
termination
  by (relation "measure (\<lambda>(coeffs, idx). 64 - idx)") auto

declare fill_rest.simps [simp del]

text \<open>
  The loop over \<open>symbols[1:]\<close>. \<open>EOB\<close> leaves the loop. A \<open>("DC", v)\<close> tuple in this
  position reaches the unpacking \<open>run, size, amp = sym\<close>, which raises \<open>ValueError\<close>.
\<close>

fun decode_ac_loop :: "symbol list \<Rightarrow> int list \<times> nat \<Rightarrow> error + (int list \<times> nat)" where
  "decode_ac_loop [] s = Inr s"
| "decode_ac_loop (ZRL # syms) s = decode_ac_loop syms (fill_zeros 16 s)"
| "decode_ac_loop (EOB # syms) s = Inr (fill_rest s)"
| "decode_ac_loop (AC run sz amp # syms) s =
     (let (coeffs, idx) = fill_zeros (nat run) s
      in if idx < 64 then decode_ac_loop syms (coeffs[idx := amp], idx + 1)
         else decode_ac_loop syms (coeffs, idx))"
| "decode_ac_loop (DC v # syms) s = Inl ValueError"

text \<open>
  \<open>symbols[0]\<close> raises \<open>IndexError\<close> on an empty list; a first symbol that is not
  \<open>("DC", v)\<close> raises \<open>ValueError\<close>.
\<close>

definition decode_ac :: "symbol list \<Rightarrow> error + int list" where
  "decode_ac symbols =
     (case symbols of
        [] \<Rightarrow> Inl IndexError
      | DC dc_val # rest \<Rightarrow>
          (case decode_ac_loop rest ((replicate 64 0)[0 := dc_val], 1) of
             Inl e \<Rightarrow> Inl e
           | Inr s \<Rightarrow> Inr (fst (fill_rest s)))
      | _ \<Rightarrow> Inl ValueError)"

text \<open>
  For the round trip: \<open>enc_spec cs run\<close> is the symbol list \<open>encode_ac\<close> appends for the
  coefficients \<open>cs\<close> after a zero run of \<open>run\<close>, and \<open>zstate pre\<close> is the state of
  \<open>decode_ac\<close> that has written the coefficients \<open>pre\<close>.
\<close>

fun enc_spec :: "int list \<Rightarrow> int \<Rightarrow> symbol list" where
  "enc_spec [] run = (if run > 0 then [EOB] else [])"
| "enc_spec (c # cs) run =
     (if c = 0 then enc_spec cs (run + 1)
      else replicate (nat (run div 16)) ZRL
           @ [AC (run mod 16) (if c > 0 then bit_length c else bit_length (- c)) c]
           @ enc_spec cs 0)"

definition zstate :: "int list \<Rightarrow> int list \<times> nat" where
  "zstate pre = (pre @ replicate (64 - length pre) 0, length pre)"

section \<open>huffman.py\<close>

text \<open>
  A table holds two dicts: \<open>codes\<close> from a symbol to \<open>(code, length)\<close> and \<open>decode_map\<close>
  from the code shifted left to 16 bits to \<open>(symbol, length)\<close>.
\<close>

record HuffmanTable =
  codes :: "(int \<times> (int \<times> int)) list"
  decode_map :: "(int \<times> (int \<times> int)) list"

text \<open>
  The constructor. The inner loop assigns \<open>count\<close> codes of length \<open>bitlen\<close>:
  \<open>symbols[p]\<close> raises \<open>IndexError\<close> past the end of the symbols, and the shift by
  \<open>16 - bitlen\<close> raises \<open>ValueError\<close> when it is negative. The outer loop runs over the
  length counts with \<open>bitlen\<close> starting at 1 and doubles \<open>code\<close> after each length.
\<close>

fun assign_codes ::
  "nat \<Rightarrow> int \<Rightarrow> int list \<Rightarrow> HuffmanTable \<times> int \<times> nat \<Rightarrow> error + (HuffmanTable \<times> int \<times> nat)" where
  "assign_codes 0 bitlen symbols s = Inr s"
| "assign_codes (Suc k) bitlen symbols (t, code, p) =
     (if length symbols \<le> p then Inl IndexError
      else if bitlen > 16 then Inl ValueError
      else
        let smb = symbols ! p;
            t' = t\<lparr>codes := dict_set (codes t) smb (code, bitlen),
                   decode_map := dict_set (decode_map t) (push_bit (nat (16 - bitlen)) code)
                                   (smb, bitlen)\<rparr>
        in assign_codes k bitlen symbols (t', code + 1, p + 1))"

fun build_codes ::
  "int list \<Rightarrow> int \<Rightarrow> int list \<Rightarrow> HuffmanTable \<times> int \<times> nat \<Rightarrow> error + (HuffmanTable \<times> int \<times> nat)" where
  "build_codes [] bitlen symbols s = Inr s"
| "build_codes (count # rest) bitlen symbols s =
     (case assign_codes (nat count) bitlen symbols s of
        Inl e \<Rightarrow> Inl e
      | Inr (t, code, p) \<Rightarrow> build_codes rest (bitlen + 1) symbols (t, push_bit 1 code, p))"

definition HuffmanTable_init :: "int list \<Rightarrow> int list \<Rightarrow> error + HuffmanTable" where
  "HuffmanTable_init lengths symbols =
     map_sum id fst (build_codes lengths 1 symbols (\<lparr>codes = [], decode_map = []\<rparr>, 0, 0))"

definition encode :: "HuffmanTable \<Rightarrow> int \<Rightarrow> error + (int \<times> int)" where
  "encode t symbol = dict_get (codes t) symbol"

text \<open>
  \<open>decode\<close>: for \<open>length\<close> from 1 to 16, read a bit, shift the code to 16 bits and
  look it up in \<open>decode_map\<close>; the length stored with the symbol is not compared. After
  16 bits without a match it raises \<open>ValueError\<close>.
\<close>

fun decode_loop :: "HuffmanTable \<Rightarrow> nat list \<Rightarrow> int \<Rightarrow> BitReader \<Rightarrow> error + (int \<times> BitReader)" where
  "decode_loop t [] code r = Inl ValueError"
| "decode_loop t (len # lens) code r =
     (case read_bit r of
        Inl e \<Rightarrow> Inl e
      | Inr (b, r') \<Rightarrow>
          (let code' = push_bit 1 code OR b;
               lookup = push_bit (16 - len) code'
           in case map_of (decode_map t) lookup of
                Some (smb, l) \<Rightarrow> Inr (smb, r')
              | None \<Rightarrow> decode_loop t lens code' r'))"

definition decode :: "HuffmanTable \<Rightarrow> BitReader \<Rightarrow> error + (int \<times> BitReader)" where
  "decode t r = decode_loop t [1..<17] 0 r"

text \<open>The standard luminance DC table (ITU-T T.81, table K.3) and the table built from it.\<close>

definition std_dc_lengths :: "int list" where
  "std_dc_lengths = [0, 1, 5, 1, 1, 1, 1, 1, 1, 0, 0, 0, 0, 0, 0, 0]"

definition std_dc_symbols :: "int list" where
  "std_dc_symbols = [0, 1, 2, 3, 4, 5, 6, 7, 8, 9, 10, 11]"

definition std_dc_table :: HuffmanTable where
  "std_dc_table =
     \<lparr>codes = [(0, (0, 2)), (1, (2, 3)), (2, (3, 3)), (3, (4, 3)), (4, (5, 3)), (5, (6, 3)),
               (6, (14, 4)), (7, (30, 5)), (8, (62, 6)), (9, (126, 7)), (10, (254, 8)),
               (11, (510, 9))],
      decode_map = [(0, (0, 2)), (16384, (1, 3)), (24576, (2, 3)), (32768, (3, 3)),
               (40960, (4, 3)), (49152, (5, 3)), (57344, (6, 4)), (61440, (7, 5)),
               (63488, (8, 6)), (64512, (9, 7)), (65024, (10, 8)), (65280, (11, 9))]\<rparr>"

section \<open>io_1.py\<close>

text \<open>
  The result of \<open>parse_jpeg\<close>. \<open>huff_tables\<close> has the single key \<open>DHT\<close>, whose value is
  the list of Huffman table payloads, kept here as that list.
\<close>

record parsed =
  segments :: "(int \<times> int list) list"
  quant_tables :: "(int \<times> int list) list"
  huff_tables :: "int list list"
  frame_header :: "int list option"
  scan_header :: "int list option"
  scan_data :: "int list"

text \<open>
  The loop over a quantization table payload. With 16-bit precision the entries are read
  in pairs \<open>raw[j], raw[j + 1]\<close> for \<open>j = 0, 2, ..., 126\<close>, which raises \<open>IndexError\<close> when
  the slice \<open>raw\<close> is shorter than 128 bytes.
\<close>

function parse_dqt :: "int list \<Rightarrow> nat \<Rightarrow> (int \<times> int list) list \<Rightarrow> error + (int \<times> int list) list" where
  "parse_dqt payload i qt =
     (if i < length payload then
        (if drop_bit 4 (payload ! i) \<noteq> 0 then
           (if length (take 128 (drop (i + 1) payload)) < 128 then Inl IndexError
            else parse_dqt payload (i + 1 + 128)
                   (dict_set qt (payload ! i AND 15)
                      (map (\<lambda>k. push_bit 8 (take 128 (drop (i + 1) payload) ! (2 * k))
                                   OR take 128 (drop (i + 1) payload) ! (2 * k + 1)) [0..<64])))
         else parse_dqt payload (i + 1 + 64)
                (dict_set qt (payload ! i AND 15) (take 64 (drop (i + 1) payload))))
      else Inr qt)"
  by pat_completeness auto
termination
  by (relation "measure (\<lambda>(payload, i, qt). length payload - i)") auto

declare parse_dqt.simps [simp del]

text \<open>What \<open>parse_jpeg\<close> does with a segment after appending it to \<open>segments\<close>.\<close>

definition on_segment :: "int \<Rightarrow> int list \<Rightarrow> parsed \<Rightarrow> error + parsed" where
  "on_segment marker payload st =
     (if marker = DQT then
        (case parse_dqt payload 0 (quant_tables st) of
           Inl e \<Rightarrow> Inl e
         | Inr qt \<Rightarrow> Inr (st\<lparr>quant_tables := qt\<rparr>))
      else if marker = DHT then Inr (st\<lparr>huff_tables := huff_tables st @ [payload]\<rparr>)
      else if marker = SOF0 then Inr (st\<lparr>frame_header := Some payload\<rparr>)
      else if marker = SOS then Inr (st\<lparr>scan_header := Some payload\<rparr>)
      else Inr st)"

text \<open>
  The main loop, at offset \<open>ptr\<close>. A byte other than 0xFF goes to \<open>scan_data\<close>. After a
  byte 0xFF the next byte is taken as a marker, whatever its value: \<open>data[ptr + 1]\<close>
  raises \<open>IndexError\<close> at the end of the data and \<open>struct.unpack_from\<close> raises
  \<open>struct.error\<close> when fewer than two bytes follow the marker. The slice of the payload
  is cut short by the end of the data, and is empty when the length field is below 2;
  the next offset is \<open>ptr + 2 + length\<close>.
\<close>

function parse_loop :: "int list \<Rightarrow> nat \<Rightarrow> parsed \<Rightarrow> error + parsed" where
  "parse_loop dat ptr st =
     (if ptr < length dat then
        (if dat ! ptr \<noteq> 255 then
           parse_loop dat (ptr + 1) (st\<lparr>scan_data := scan_data st @ [dat ! ptr]\<rparr>)
         else if length dat \<le> ptr + 1 then Inl IndexError
         else if dat ! (ptr + 1) = EOI then
           Inr (st\<lparr>segments := segments st @ [(dat ! (ptr + 1), [])]\<rparr>)
         else if length dat < ptr + 4 then Inl StructError
         else
           (case on_segment (dat ! (ptr + 1))
                   (take (nat (dat ! (ptr + 2) * 256 + dat ! (ptr + 3)) - 2) (drop (ptr + 4) dat))
                   (st\<lparr>segments := segments st @
                       [(dat ! (ptr + 1),
                         take (nat (dat ! (ptr + 2) * 256 + dat ! (ptr + 3)) - 2)
                           (drop (ptr + 4) dat))]\<rparr>) of
              Inl e \<Rightarrow> Inl e
            | Inr st' \<Rightarrow>
                parse_loop dat (ptr + 2 + nat (dat ! (ptr + 2) * 256 + dat ! (ptr + 3))) st'))
      else Inr st)"
  by pat_completeness auto
termination
  by (relation "measure (\<lambda>(dat, ptr, st). length dat - ptr)") auto

declare parse_loop.simps [simp del]

definition parsed_init :: parsed where
  "parsed_init = \<lparr>segments = [], quant_tables = [], huff_tables = [],
                  frame_header = None, scan_header = None, scan_data = []\<rparr>"

text \<open>\<open>parse_jpeg\<close> on the content of the file: the assertion on the first two bytes.\<close>

definition parse_jpeg_bytes :: "int list \<Rightarrow> error + parsed" where
  "parse_jpeg_bytes dat =
     (if take 2 dat \<noteq> [255, 216] then Inl AssertionError else parse_loop dat 2 parsed_init)"

definition parse_jpeg :: "files \<Rightarrow> string \<Rightarrow> error + parsed" where
  "parse_jpeg fs path =
     (case fs path of None \<Rightarrow> Inl FileNotFoundError | Some dat \<Rightarrow> parse_jpeg_bytes dat)"

section \<open>Python numbers\<close>

text \<open>
  A Python \<open>float\<close> is an IEEE 754 binary64 number. A finite float is modelled by the
  rational number it stands for, and every float operation by the exact operation
  followed by \<open>fl\<close>, rounding to the nearest number with a 53-bit significand, ties to
  the even significand. The exponent range is not modelled: the transcoder's values lie
  far inside it (overflow to infinity starts at 2^1024, subnormal numbers below 2^-1022).

  \<open>ilog2 x\<close> is the exponent \<open>e\<close> with \<open>2^e \<le> x < 2^(e + 1)\<close> for positive \<open>x\<close>, computed
  from the bit lengths of numerator and denominator. \<open>rne\<close> rounds to the nearest
  integer, ties to even: it is also Python's \<open>round\<close> on a float.
\<close>

definition ilog2 :: "rat \<Rightarrow> int" where
  "ilog2 x =
     (let (n, d) = quotient_of x;
          k = bit_length n - bit_length d
      in if 2 powi k \<le> x then k else k - 1)"

definition rne :: "rat \<Rightarrow> int" where
  "rne y =
     (let f = \<lfloor>y\<rfloor>; r = y - of_int f
      in if r < 1 / 2 then f else if r > 1 / 2 then f + 1 else if even f then f else f + 1)"

definition fl :: "rat \<Rightarrow> rat" where
  "fl x =
     (if x = 0 then 0
      else let e = ilog2 \<bar>x\<bar> in sgn x * of_int (rne (\<bar>x\<bar> * 2 powi (52 - e))) * 2 powi (e - 52))"

text \<open>
  The values the scaling and quantization code computes with are \<open>int\<close> or \<open>float\<close>.
  \<open>*\<close> and \<open>+\<close> stay exact on two ints and convert an int operand to float otherwise;
  \<open>/\<close> always gives a float, correctly rounded also for two ints, and raises
  \<open>ZeroDivisionError\<close> on a zero divisor. \<open>int(x)\<close> truncates a float towards zero.
\<close>

datatype pynum = PyInt int | PyFloat rat

fun to_float :: "pynum \<Rightarrow> rat" where
  "to_float (PyInt a) = fl (of_int a)"
| "to_float (PyFloat x) = x"

fun py_mul :: "pynum \<Rightarrow> pynum \<Rightarrow> pynum" where
  "py_mul (PyInt a) (PyInt b) = PyInt (a * b)"
| "py_mul x y = PyFloat (fl (to_float x * to_float y))"

fun py_add :: "pynum \<Rightarrow> pynum \<Rightarrow> pynum" where
  "py_add (PyInt a) (PyInt b) = PyInt (a + b)"
| "py_add x y = PyFloat (fl (to_float x + to_float y))"

fun py_truediv :: "pynum \<Rightarrow> pynum \<Rightarrow> error + pynum" where
  "py_truediv (PyInt a) (PyInt b) =
     (if b = 0 then Inl ZeroDivisionError else Inr (PyFloat (fl (of_int a / of_int b))))"
| "py_truediv x y =
     (if to_float y = 0 then Inl ZeroDivisionError
      else Inr (PyFloat (fl (to_float x / to_float y))))"

fun py_int :: "pynum \<Rightarrow> int" where
  "py_int (PyInt a) = a"
| "py_int (PyFloat x) = (if x \<ge> 0 then \<lfloor>x\<rfloor> else \<lceil>x\<rceil>)"

fun py_round :: "pynum \<Rightarrow> int" where
  "py_round (PyInt a) = a"
| "py_round (PyFloat x) = rne x"

text \<open>A comprehension whose element expression may raise.\<close>

fun map_e :: "('a \<Rightarrow> error + 'b) \<Rightarrow> 'a list \<Rightarrow> error + 'b list" where
  "map_e f [] = Inr []"
| "map_e f (x # xs) = bind_e (f x) (\<lambda>y. bind_e (map_e f xs) (\<lambda>ys. Inr (y # ys)))"

text \<open>\<open>m[i][j]\<close> on a list of rows: \<open>IndexError\<close> outside the rows or the row.\<close>

definition get2 :: "int list list \<Rightarrow> nat \<Rightarrow> nat \<Rightarrow> error + int" where
  "get2 m i j =
     (if i < length m \<and> j < length (m ! i) then Inr (m ! i ! j) else Inl IndexError)"

section \<open>quantization.py\<close>

definition scale_table :: "int list list \<Rightarrow> int \<Rightarrow> error + int list list" where
  "scale_table table quality =
     (let quality1 = (if quality < 1 then 1 else quality);
          quality2 = (if quality1 > 100 then 100 else quality1)
      in bind_e (if quality2 < 50 then py_truediv (PyInt 5000) (PyInt quality2)
                 else Inr (PyInt (200 - quality2 * 2))) (\<lambda>factor.
         map_e (\<lambda>row.
           map_e (\<lambda>v.
             bind_e (py_truediv (py_add (py_mul (PyInt v) factor) (PyInt 50)) (PyInt 100)) (\<lambda>x.
               Inr (max 1 (min (py_int x) 255)))) row) table))"

definition quantize_block :: "int list list \<Rightarrow> int list list \<Rightarrow> error + int list list" where
  "quantize_block block q_table =
     map_e (\<lambda>i.
       map_e (\<lambda>j.
         bind_e (get2 block i j) (\<lambda>a.
         bind_e (get2 q_table i j) (\<lambda>b.
         bind_e (py_truediv (PyInt a) (PyInt b)) (\<lambda>x. Inr (py_round x))))) [0..<8]) [0..<8]"

definition dequantize_block :: "int list list \<Rightarrow> int list list \<Rightarrow> error + int list list" where
  "dequantize_block q_block q_table =
     map_e (\<lambda>i.
       map_e (\<lambda>j.
         bind_e (get2 q_block i j) (\<lambda>a.
         bind_e (get2 q_table i j) (\<lambda>b. Inr (a * b)))) [0..<8]) [0..<8]"

section \<open>compressor.py: scaling the tables\<close>

text \<open>
  \<open>build_scaled_qtables\<close> iterates over the dict of parsed tables. The matrix comes from
  \<open>inverse_zigzag\<close> and has 8 rows of 8 entries. The quality is used as given, with no
  clamping: quality 0 raises \<open>ZeroDivisionError\<close>.
\<close>

fun build_scaled_loop ::
  "(int \<times> int list) list \<Rightarrow> int \<Rightarrow> (int \<times> int list list) list \<Rightarrow>
   error + (int \<times> int list list) list" where
  "build_scaled_loop [] quality scaled = Inr scaled"
| "build_scaled_loop ((tid, flat) # rest) quality scaled =
     bind_e (inverse_zigzag flat) (\<lambda>mat.
     bind_e (if quality < 50 then py_truediv (PyInt 5000) (PyInt quality)
             else Inr (PyInt (200 - quality * 2))) (\<lambda>factor.
     bind_e (map_e (\<lambda>i.
               map_e (\<lambda>j.
                 bind_e (py_truediv (py_add (py_mul (PyInt (mat ! i ! j)) factor) (PyInt 50))
                           (PyInt 100)) (\<lambda>x.
                   Inr (max 1 (min 255 (py_int x))))) [0..<8]) [0..<8]) (\<lambda>new_mat.
     build_scaled_loop rest quality (dict_set scaled tid new_mat))))"

definition build_scaled_qtables ::
  "(int \<times> int list) list \<Rightarrow> int \<Rightarrow> error + (int \<times> int list list) list" where
  "build_scaled_qtables orig_qtables_flat quality = build_scaled_loop orig_qtables_flat quality []"

section \<open>compressor.py: rebuilding the file\<close>

text \<open>
  \<open>rebuild_dqt_payload\<close> iterates over the dict of scaled tables. Reading \<open>mat[i][j]\<close>
  raises \<open>IndexError\<close> when the matrix has fewer than 8 rows or a row has fewer than 8
  entries, and \<open>bytearray.extend\<close> raises \<open>ValueError\<close> on an entry outside 0..255.
\<close>

definition dqt_table_bytes :: "int \<Rightarrow> int list list \<Rightarrow> error + int list" where
  "dqt_table_bytes tid mat =
     (if \<not> list_all (\<lambda>i. i < length mat \<and> 8 \<le> length (mat ! i)) [0..<8] then Inl IndexError
      else
        let flat = concat (map (\<lambda>i. map (\<lambda>j. mat ! i ! j) [0..<8]) [0..<8]);
            zz = map (\<lambda>idx. flat ! idx) ZIGZAG_ORDER
        in if is_bytes zz then Inr ((tid AND 15) # zz) else Inl ValueError)"

fun rebuild_dqt_payload :: "(int \<times> int list list) list \<Rightarrow> error + int list" where
  "rebuild_dqt_payload [] = Inr []"
| "rebuild_dqt_payload ((tid, mat) # rest) =
     bind_e (dqt_table_bytes tid mat) (\<lambda>bs.
     bind_e (rebuild_dqt_payload rest) (\<lambda>more. Inr (bs @ more)))"

text \<open>
  \<open>build_segment\<close>: \<open>bytes([marker])\<close> raises \<open>ValueError\<close> for a marker outside 0..255
  and \<open>struct.pack(">H", length)\<close> raises \<open>struct.error\<close> for a length above 65535.
\<close>

definition build_segment :: "int \<Rightarrow> int list \<Rightarrow> error + int list" where
  "build_segment marker payload =
     (let len = int (length payload) + 2
      in if \<not> is_byte marker then Inl ValueError
         else if len > 65535 then Inl StructError
         else Inr ([255, marker] @ [len div 256, len mod 256] @ payload))"

text \<open>
  \<open>rebuild_jpeg\<close> opens the output file and writes nine groups of chunks, in this order.
  Each chunk is computed when its \<open>out.write\<close> is reached, so an exception leaves the
  chunks written before it in the file.
\<close>

definition rebuild_chunks ::
  "(int \<times> int list) list \<Rightarrow> int \<Rightarrow> int list \<Rightarrow> int list option \<Rightarrow>
   (int \<times> int list list) list \<Rightarrow> int list \<Rightarrow> (error + int list) list" where
  "rebuild_chunks segs frame_marker frame_payload scan_payload scaled_qtables new_scan =
     [Inr [255, SOI]]
     @ map (\<lambda>(m, p). build_segment m p)
         (filter (\<lambda>(m, p). (APP0 \<le> m \<and> m \<le> 239) \<or> m = 254) segs)
     @ [bind_e (rebuild_dqt_payload scaled_qtables) (build_segment DQT)]
     @ [build_segment frame_marker frame_payload]
     @ map (\<lambda>(m, p). build_segment DHT p) (filter (\<lambda>(m, p). m = DHT) segs)
     @ map (\<lambda>(m, p). build_segment m p)
         (filter (\<lambda>(m, p). m < SOS \<and> m \<notin> set [SOI, APP0, DQT, frame_marker, DHT]) segs)
     @ [case scan_payload of None \<Rightarrow> Inl TypeError | Some p \<Rightarrow> build_segment SOS p]
     @ [Inr new_scan]
     @ [Inr [255, EOI]]"

text \<open>Writing the chunks in order: the bytes written, and the exception that stopped it.\<close>

fun write_chunks :: "(error + int list) list \<Rightarrow> int list \<Rightarrow> error option \<times> int list" where
  "write_chunks [] out = (None, out)"
| "write_chunks (Inl e # cs) out = (Some e, out)"
| "write_chunks (Inr bs # cs) out = write_chunks cs (out @ bs)"

definition rebuild_jpeg ::
  "(int \<times> int list) list \<Rightarrow> int \<Rightarrow> int list \<Rightarrow> int list option \<Rightarrow>
   (int \<times> int list list) list \<Rightarrow> int list \<Rightarrow> string \<Rightarrow> files \<Rightarrow> error option \<times> files" where
  "rebuild_jpeg segs frame_marker frame_payload scan_payload scaled_qtables new_scan out_path fs =
     (let (err, bytes) =
            write_chunks
              (rebuild_chunks segs frame_marker frame_payload scan_payload scaled_qtables new_scan) []
      in (err, fs(out_path \<mapsto> bytes)))"

text \<open>
  Names for the parts of the scaling formula: the clamped quality, the factor, and the
  computation of one entry.
\<close>

definition scale_entry :: "pynum \<Rightarrow> int \<Rightarrow> error + int" where
  "scale_entry factor v =
     bind_e (py_truediv (py_add (py_mul (PyInt v) factor) (PyInt 50)) (PyInt 100)) (\<lambda>x.
       Inr (max 1 (min (py_int x) 255)))"

definition clamp_quality :: "int \<Rightarrow> int" where
  "clamp_quality quality = (if quality < 1 then 1 else if quality > 100 then 100 else quality)"

definition scale_factor :: "int \<Rightarrow> error + pynum" where
  "scale_factor quality =
     (if quality < 50 then py_truediv (PyInt 5000) (PyInt quality)
      else Inr (PyInt (200 - quality * 2)))"

text \<open>One table of the dict, scaled through \<open>scale_table\<close>.\<close>

definition scaled_entry :: "int \<Rightarrow> int \<times> int list \<Rightarrow> error + (int \<times> int list list)" where
  "scaled_entry q = (\<lambda>(tid, flat).
     bind_e (inverse_zigzag flat) (\<lambda>mat. bind_e (scale_table mat q) (\<lambda>m. Inr (tid, m))))"

text \<open>
  The three floating-point operations that \<open>scale_table\<close> applies to one entry when
  the factor is a float: multiply, add 50, divide by 100.
\<close>

definition chain :: "rat \<Rightarrow> int \<Rightarrow> rat" where
  "chain f v = fl (fl (fl (of_int v * f) + 50) / 100)"

text \<open>
  The scaling formula in exact arithmetic: the factor of the specification, and an entry
  with the quotient truncated to an integer.
\<close>

definition spec_factor :: "int \<Rightarrow> rat" where
  "spec_factor quality = (if quality < 50 then 5000 / of_int quality else 200 - 2 * of_int quality)"

definition trunc_entry :: "int \<Rightarrow> int \<Rightarrow> int" where
  "trunc_entry quality v = max 1 (min 255 \<lfloor>(of_int v * spec_factor quality + 50) / 100\<rfloor>)"

text \<open>The formula as the specification words it, with the quotient rounded to nearest.\<close>

definition spec_round_entry :: "int \<Rightarrow> int \<Rightarrow> int" where
  "spec_round_entry quality v = max 1 (min 255 (rne ((of_int v * spec_factor quality + 50) / 100)))"

section \<open>huffman.py: symbols of a block\<close>

subsection \<open>Bits left in a reader\<close>

text \<open>
  The loops that decode symbols run until the reader raises \<open>EOFError\<close>. They terminate
  because every successful \<open>read_bit\<close> lowers the number of bits left in the reader.
\<close>

definition bits_left :: "BitReader \<Rightarrow> nat" where
  "bits_left r = 8 * (length (data r) - bytepos r) - bitpos r"

lemma read_bit_less: "read_bit r = Inr (b, r') \<Longrightarrow> bits_left r' < bits_left r"
  by (auto simp: read_bit_def bits_left_def Let_def split: if_splits)

lemma read_bits_loop_le: "read_bits_loop k v r = Inr (x, r') \<Longrightarrow> bits_left r' \<le> bits_left r"
proof (induction k arbitrary: v r)
  case 0
  then show ?case by simp
next
  case (Suc k)
  then show ?case
    by (auto split: sum.splits dest!: read_bit_less) fastforce
qed

lemma read_bits_le: "read_bits n r = Inr (x, r') \<Longrightarrow> bits_left r' \<le> bits_left r"
  unfolding read_bits_def by (rule read_bits_loop_le)

lemma decode_loop_less: "decode_loop t lens c r = Inr (s, r') \<Longrightarrow> bits_left r' < bits_left r"
proof (induction lens arbitrary: c r)
  case Nil
  then show ?case by simp
next
  case (Cons len lens)
  from Cons.prems obtain b r1 where rb: "read_bit r = Inr (b, r1)"
    by (auto split: sum.splits)
  note l = read_bit_less [OF rb]
  show ?case
  proof (cases "map_of (decode_map t) (push_bit (16 - len) (push_bit 1 c OR b))")
    case None
    with Cons.prems rb have "decode_loop t lens (push_bit 1 c OR b) r1 = Inr (s, r')"
      by (simp add: Let_def)
    from Cons.IH [OF this] l show ?thesis by simp
  next
    case (Some a)
    with Cons.prems rb have "r' = r1" by (auto simp: Let_def split: prod.splits)
    with l show ?thesis by simp
  qed
qed

lemma decode_less: "decode t r = Inr (s, r') \<Longrightarrow> bits_left r' < bits_left r"
  unfolding decode_def by (rule decode_loop_less)


subsection \<open>Tables of a segment, symbols of a block\<close>

text \<open>
  \<open>parse_dht\<close>: one table per iteration, 17 bytes of header and counts and then as many
  symbols as the counts add up to (a sum of bytes, so not negative).
\<close>

function parse_dht_loop ::
  "int list \<Rightarrow> nat \<Rightarrow> (int \<times> HuffmanTable) list \<times> (int \<times> HuffmanTable) list \<Rightarrow>
   error + ((int \<times> HuffmanTable) list \<times> (int \<times> HuffmanTable) list)" where
  "parse_dht_loop payload i (dc_tables, ac_tables) =
     (if i < length payload then
        (case HuffmanTable_init (take 16 (drop (i + 1) payload))
                (take (nat (sum_list (take 16 (drop (i + 1) payload)))) (drop (i + 17) payload)) of
           Inl e \<Rightarrow> Inl e
         | Inr table \<Rightarrow>
             parse_dht_loop payload (i + 17 + nat (sum_list (take 16 (drop (i + 1) payload))))
               (if drop_bit 4 (payload ! i) = 0
                then (dict_set dc_tables (payload ! i AND 15) table, ac_tables)
                else (dc_tables, dict_set ac_tables (payload ! i AND 15) table)))
      else Inr (dc_tables, ac_tables))"
  by pat_completeness auto
termination
  by (relation "measure (\<lambda>(payload, i, t). length payload - i)") auto

declare parse_dht_loop.simps [simp del]

definition parse_dht ::
  "int list \<Rightarrow> error + ((int \<times> HuffmanTable) list \<times> (int \<times> HuffmanTable) list)" where
  "parse_dht payload = parse_dht_loop payload 0 ([], [])"

text \<open>
  \<open>encode_coefficient\<close> writes the amplitude bits of a value: nothing for 0, the value
  itself when positive, and \<open>(1 << size) + value - 1\<close> when negative.
\<close>

definition encode_coefficient :: "int \<Rightarrow> BitWriter \<Rightarrow> BitWriter" where
  "encode_coefficient val w =
     (if val = 0 then w
      else if val < 0
        then write_bits w (bit_length val) (push_bit (nat (bit_length val)) 1 + val - 1)
        else write_bits w (bit_length val) val)"

text \<open>The loop of \<open>encode_symbols\<close> over \<open>symbols[1:]\<close>; \<open>EOB\<close> leaves the loop.\<close>

fun encode_ac_symbols :: "symbol list \<Rightarrow> HuffmanTable \<Rightarrow> BitWriter \<Rightarrow> error + BitWriter" where
  "encode_ac_symbols [] ac_table w = Inr w"
| "encode_ac_symbols (ZRL # syms) ac_table w =
     bind_e (encode ac_table 240) (\<lambda>(code, len).
       encode_ac_symbols syms ac_table (write_bits w len code))"
| "encode_ac_symbols (EOB # syms) ac_table w =
     bind_e (encode ac_table 0) (\<lambda>(code, len). Inr (write_bits w len code))"
| "encode_ac_symbols (AC run sz amp # syms) ac_table w =
     bind_e (encode ac_table (push_bit 4 run OR sz)) (\<lambda>(code, len).
       encode_ac_symbols syms ac_table (encode_coefficient amp (write_bits w len code)))"
| "encode_ac_symbols (DC v # syms) ac_table w = Inl ValueError"

text \<open>
  \<open>encode_symbols\<close>: \<open>symbols[0]\<close> raises \<open>IndexError\<close> on an empty list, unpacking a
  three-element tuple into \<open>tag, dc_val\<close> raises \<open>ValueError\<close>, and the assertion fails
  on \<open>("ZRL", 0)\<close> and \<open>("EOB", 0)\<close>.
\<close>

fun encode_symbols :: "symbol list \<Rightarrow> HuffmanTable \<Rightarrow> HuffmanTable \<Rightarrow> BitWriter \<Rightarrow> error + BitWriter" where
  "encode_symbols [] dc_table ac_table w = Inl IndexError"
| "encode_symbols (DC dc_val # syms) dc_table ac_table w =
     bind_e (encode dc_table (if dc_val \<noteq> 0 then bit_length dc_val else 0)) (\<lambda>(code, len).
       encode_ac_symbols syms ac_table (encode_coefficient dc_val (write_bits w len code)))"
| "encode_symbols (AC run sz amp # syms) dc_table ac_table w = Inl ValueError"
| "encode_symbols (s # syms) dc_table ac_table w = Inl AssertionError"

text \<open>The amplitude that \<open>decode_symbols\<close> makes of the bits read for a category.\<close>

definition amplitude_of :: "int \<Rightarrow> int \<Rightarrow> int" where
  "amplitude_of cat bits =
     (if bits < push_bit (nat (cat - 1)) 1 then bits - (push_bit (nat cat) 1 - 1) else bits)"

text \<open>The loop \<open>while count < 64\<close> of \<open>decode_symbols\<close>.\<close>

function decode_ac_symbols ::
  "HuffmanTable \<Rightarrow> int \<Rightarrow> symbol list \<Rightarrow> BitReader \<Rightarrow> error + (symbol list \<times> BitReader)" where
  "decode_ac_symbols ac_table count symbols r =
     (if count < 64 then
        (case decode ac_table r of
           Inl e \<Rightarrow> Inl e
         | Inr (rs, r1) \<Rightarrow>
             if rs = 0 then Inr (symbols @ [EOB], r1)
             else if rs = 240 then decode_ac_symbols ac_table (count + 16) (symbols @ [ZRL]) r1
             else if rs AND 15 > 0 then
               (case read_bits (rs AND 15) r1 of
                  Inl e \<Rightarrow> Inl e
                | Inr (bits, r2) \<Rightarrow>
                    decode_ac_symbols ac_table (count + drop_bit 4 rs + 1)
                      (symbols @ [AC (drop_bit 4 rs) (rs AND 15) (amplitude_of (rs AND 15) bits)]) r2)
             else decode_ac_symbols ac_table (count + drop_bit 4 rs + 1)
                    (symbols @ [AC (drop_bit 4 rs) (rs AND 15) 0]) r1)
      else Inr (symbols, r))"
  by pat_completeness auto
termination
proof (relation "measure (\<lambda>(ac_table, count, symbols, r). bits_left r)")
qed (auto dest!: decode_less read_bits_le)

declare decode_ac_symbols.simps [simp del]

definition decode_symbols ::
  "BitReader \<Rightarrow> HuffmanTable \<Rightarrow> HuffmanTable \<Rightarrow> error + (symbol list \<times> BitReader)" where
  "decode_symbols r dc_table ac_table =
     (case decode dc_table r of
        Inl e \<Rightarrow> Inl e
      | Inr (cat, r1) \<Rightarrow>
          if cat > 0 then
            (case read_bits cat r1 of
               Inl e \<Rightarrow> Inl e
             | Inr (bits, r2) \<Rightarrow> decode_ac_symbols ac_table 1 [DC (amplitude_of cat bits)] r2)
          else decode_ac_symbols ac_table 1 [DC 0] r1)"


lemma decode_ac_symbols_le:
  "decode_ac_symbols ac_table count symbols r = Inr (syms, r') \<Longrightarrow> bits_left r' \<le> bits_left r"
proof (induction ac_table count symbols r rule: decode_ac_symbols.induct)
  case (1 ac_table count symbols r)
  show ?case
  proof (cases "count < 64")
    case False
    with "1.prems" show ?thesis by (simp add: decode_ac_symbols.simps)
  next
    case lt: True
    from "1.prems" lt obtain rs r1 where d: "decode ac_table r = Inr (rs, r1)"
      by (subst (asm) decode_ac_symbols.simps) (auto split: sum.splits)
    note l1 = decode_less [OF d]
    show ?thesis
    proof (cases "rs = 0")
      case True
      with "1.prems" lt d have "r' = r1"
        by (subst (asm) decode_ac_symbols.simps) simp
      with l1 show ?thesis by simp
    next
      case nz: False
      show ?thesis
      proof (cases "rs = 240")
        case True
        with "1.prems" lt d nz
        have "decode_ac_symbols ac_table (count + 16) (symbols @ [ZRL]) r1 = Inr (syms, r')"
          by (subst (asm) decode_ac_symbols.simps) simp
        from "1.IH"(1) [OF lt d refl nz True this] l1 show ?thesis by simp
      next
        case nf: False
        show ?thesis
        proof (cases "rs AND 15 > 0")
          case True
          from "1.prems" lt d nz nf True obtain bits r2 where
            rb: "read_bits (rs AND 15) r1 = Inr (bits, r2)"
            and rec: "decode_ac_symbols ac_table (count + drop_bit 4 rs + 1)
                (symbols @ [AC (drop_bit 4 rs) (rs AND 15) (amplitude_of (rs AND 15) bits)]) r2
                = Inr (syms, r')"
            by (subst (asm) decode_ac_symbols.simps) (auto split: sum.splits)
          from "1.IH"(2) [OF lt d refl nz nf True rb refl rec]
            read_bits_le [OF rb] l1
          show ?thesis by simp
        next
          case False
          with "1.prems" lt d nz nf
          have "decode_ac_symbols ac_table (count + drop_bit 4 rs + 1)
                (symbols @ [AC (drop_bit 4 rs) (rs AND 15) 0]) r1 = Inr (syms, r')"
            by (subst (asm) decode_ac_symbols.simps) simp
          from "1.IH"(3) [OF lt d refl nz nf False this] l1 show ?thesis by simp
        qed
      qed
    qed
  qed
qed

lemma decode_symbols_less:
  assumes "decode_symbols r dc_table ac_table = Inr (syms, r')"
  shows "bits_left r' < bits_left r"
proof -
  from assms obtain cat r1 where d: "decode dc_table r = Inr (cat, r1)"
    by (auto simp: decode_symbols_def split: sum.splits)
  note l1 = decode_less [OF d]
  show ?thesis
  proof (cases "cat > 0")
    case True
    with assms d obtain bits r2 where rb: "read_bits cat r1 = Inr (bits, r2)"
      and rec: "decode_ac_symbols ac_table 1 [DC (amplitude_of cat bits)] r2 = Inr (syms, r')"
      by (auto simp: decode_symbols_def split: sum.splits)
    from decode_ac_symbols_le [OF rec] read_bits_le [OF rb] l1 show ?thesis by simp
  next
    case False
    with assms d have "decode_ac_symbols ac_table 1 [DC 0] r1 = Inr (syms, r')"
      by (simp add: decode_symbols_def)
    from decode_ac_symbols_le [OF this] l1 show ?thesis by simp
  qed
qed

section \<open>compressor.py: the pipeline\<close>

text \<open>\<open>dict.update\<close>: the entries of the second dict are assigned in its order.\<close>

definition dict_update :: "('k \<times> 'v) list \<Rightarrow> ('k \<times> 'v) list \<Rightarrow> ('k \<times> 'v) list" where
  "dict_update d new = fold (\<lambda>(k, v) d'. dict_set d' k v) new d"

text \<open>
  Step 2: the first segment whose marker lies in 0xC0..0xCF and is neither \<open>DHT\<close> nor
  \<open>SOS\<close>; \<open>next\<close> raises \<open>StopIteration\<close> when there is none.
\<close>

definition find_frame :: "(int \<times> int list) list \<Rightarrow> error + (int \<times> int list)" where
  "find_frame segs =
     (case filter (\<lambda>(m, p). 192 \<le> m \<and> m \<le> 207 \<and> m \<notin> set [DHT, SOS]) segs of
        [] \<Rightarrow> Inl StopIteration
      | x # xs \<Rightarrow> Inr x)"

text \<open>Step 3: the Huffman tables of every \<open>DHT\<close> segment.\<close>

fun parse_all_dht ::
  "(int \<times> int list) list \<Rightarrow> (int \<times> HuffmanTable) list \<times> (int \<times> HuffmanTable) list \<Rightarrow>
   error + ((int \<times> HuffmanTable) list \<times> (int \<times> HuffmanTable) list)" where
  "parse_all_dht [] tables = Inr tables"
| "parse_all_dht ((m, p) # segs) (dc_tables, ac_tables) =
     (if m = DHT then
        bind_e (parse_dht p) (\<lambda>(dts, ats).
          parse_all_dht segs (dict_update dc_tables dts, dict_update ac_tables ats))
      else parse_all_dht segs (dc_tables, ac_tables))"

text \<open>
  Step 4: the loop \<open>while True\<close> that decodes blocks. The tables with id 0 are looked up
  in each iteration, before \<open>decode_symbols\<close> is called; \<open>EOFError\<close> ends the loop and
  any other exception is raised.
\<close>

function decode_all ::
  "(int \<times> HuffmanTable) list \<Rightarrow> (int \<times> HuffmanTable) list \<Rightarrow> BitReader \<Rightarrow> symbol list list \<Rightarrow>
   error + symbol list list" where
  "decode_all dc_tables ac_tables r all_syms =
     (case dict_get dc_tables 0 of
        Inl e \<Rightarrow> Inl e
      | Inr dc_table \<Rightarrow>
          (case dict_get ac_tables 0 of
             Inl e \<Rightarrow> Inl e
           | Inr ac_table \<Rightarrow>
               (case decode_symbols r dc_table ac_table of
                  Inl e \<Rightarrow> if e = EOFError then Inr all_syms else Inl e
                | Inr (syms, r') \<Rightarrow> decode_all dc_tables ac_tables r' (all_syms @ [syms]))))"
  by pat_completeness auto
termination
proof (relation "measure (\<lambda>(dc_tables, ac_tables, r, all_syms). bits_left r)")
qed (auto dest!: decode_symbols_less)

declare decode_all.simps [simp del]

text \<open>Step 6: one block, from its symbols to the bits written for it.\<close>

definition reencode_block ::
  "symbol list \<Rightarrow> (int \<times> int list) list \<Rightarrow> (int \<times> int list list) list \<Rightarrow>
   (int \<times> HuffmanTable) list \<Rightarrow> (int \<times> HuffmanTable) list \<Rightarrow> BitWriter \<Rightarrow> error + BitWriter" where
  "reencode_block syms orig_qtables scaled_qtables dc_tables ac_tables bw =
     bind_e (decode_ac syms) (\<lambda>coeffs.
     bind_e (inverse_zigzag coeffs) (\<lambda>qblk.
     bind_e (dict_get orig_qtables 0) (\<lambda>orig.
     bind_e (inverse_zigzag orig) (\<lambda>orig_mat.
     bind_e (dequantize_block qblk orig_mat) (\<lambda>deq.
     bind_e (dict_get scaled_qtables 0) (\<lambda>scaled.
     bind_e (quantize_block deq scaled) (\<lambda>rq.
     bind_e (zigzag_order rq) (\<lambda>zz.
     bind_e (encode_ac zz) (\<lambda>new_syms.
     bind_e (dict_get dc_tables 0) (\<lambda>dc_table.
     bind_e (dict_get ac_tables 0) (\<lambda>ac_table.
     encode_symbols new_syms dc_table ac_table bw)))))))))))"

fun reencode ::
  "symbol list list \<Rightarrow> (int \<times> int list) list \<Rightarrow> (int \<times> int list list) list \<Rightarrow>
   (int \<times> HuffmanTable) list \<Rightarrow> (int \<times> HuffmanTable) list \<Rightarrow> BitWriter \<Rightarrow> error + BitWriter" where
  "reencode [] orig_qtables scaled_qtables dc_tables ac_tables bw = Inr bw"
| "reencode (syms # rest) orig_qtables scaled_qtables dc_tables ac_tables bw =
     bind_e (reencode_block syms orig_qtables scaled_qtables dc_tables ac_tables bw) (\<lambda>bw'.
       reencode rest orig_qtables scaled_qtables dc_tables ac_tables bw')"

text \<open>
  Steps 1 to 6 of \<open>compress\<close>: everything before the call of \<open>rebuild_jpeg\<close>. They read
  the input file and compute the arguments of \<open>rebuild_jpeg\<close>; no file is written.
\<close>

record rebuild_args =
  ra_segments :: "(int \<times> int list) list"
  ra_frame_marker :: int
  ra_frame_payload :: "int list"
  ra_scan_payload :: "int list option"
  ra_scaled_qtables :: "(int \<times> int list list) list"
  ra_new_scan :: "int list"

definition transcode :: "files \<Rightarrow> string \<Rightarrow> int \<Rightarrow> error + rebuild_args" where
  "transcode fs input_path quality =
     bind_e (parse_jpeg fs input_path) (\<lambda>parsed.
     bind_e (find_frame (segments parsed)) (\<lambda>(frame_marker, frame_payload).
     bind_e (parse_all_dht (segments parsed) ([], [])) (\<lambda>(dc_tables, ac_tables).
     bind_e (decode_all dc_tables ac_tables (BitReader_init (scan_data parsed)) []) (\<lambda>all_syms.
     bind_e (build_scaled_qtables (quant_tables parsed) quality) (\<lambda>scaled_qtables.
     bind_e (reencode all_syms (quant_tables parsed) scaled_qtables dc_tables ac_tables
               BitWriter_init) (\<lambda>bw.
     Inr \<lparr>ra_segments = segments parsed, ra_frame_marker = frame_marker,
          ra_frame_payload = frame_payload, ra_scan_payload = scan_header parsed,
          ra_scaled_qtables = scaled_qtables, ra_new_scan = fst (get_bytes bw)\<rparr>))))))"

text \<open>
  \<open>compress\<close>: an exception of steps 1 to 6 is raised with the files as they were;
  otherwise step 7 calls \<open>rebuild_jpeg\<close>, the only place that opens the output file.
\<close>

definition compress :: "files \<Rightarrow> string \<Rightarrow> string \<Rightarrow> int \<Rightarrow> error option \<times> files" where
  "compress fs input_path output_path quality =
     (case transcode fs input_path quality of
        Inl e \<Rightarrow> (Some e, fs)
      | Inr a \<Rightarrow>
          rebuild_jpeg (ra_segments a) (ra_frame_marker a) (ra_frame_payload a)
            (ra_scan_payload a) (ra_scaled_qtables a) (ra_new_scan a) output_path fs)"

text \<open>
  Two files: an input with a frame header and a scan header but no Huffman table, and an
  output file that already exists.
\<close>

definition example_files :: files where
  "example_files =
     [''in.jpg'' \<mapsto> [255, 216, 255, 192, 0, 3, 8, 255, 218, 0, 3, 1, 18, 255, 217],
      ''out.jpg'' \<mapsto> [9, 9]]"

section \<open>Bitstream round trip\<close>

lemma shl_or_bit: "is_bit b \<Longrightarrow> push_bit 1 (a::int) OR b = 2 * a + b"
  by (auto simp: is_bit_def or_one_eq)

lemma shl_or_bit': "is_bit b \<Longrightarrow> (a::int) * 2 OR b = 2 * a + b"
  using shl_or_bit [of b a] by (simp add: push_bit_eq_mult)

lemma and_one_mod: "(a::int) AND 1 = a mod 2"
  by (simp add: and_one_eq)

lemma and_255_mod: "(v::int) AND 255 = v mod 256"
proof -
  have "v AND mask 8 = take_bit 8 v" by (simp add: take_bit_eq_mask)
  then show ?thesis by (simp add: take_bit_eq_mod mask_eq_exp_minus_1)
qed

lemma bits_of_0 [simp]: "bits_of 0 v = []"
  by (simp add: bits_of_def)

lemma bits_of_Suc: "bits_of (Suc n) v = (drop_bit n v AND 1) # bits_of n v"
  by (simp add: bits_of_def)

lemma length_bits_of [simp]: "length (bits_of n v) = n"
  by (simp add: bits_of_def)

lemma bits_of_is_bit: "list_all is_bit (bits_of n v)"
  by (auto simp: bits_of_def list_all_iff is_bit_def and_one_mod)

lemma val_acc_snoc: "val_acc a (bs @ [b]) = push_bit 1 (val_acc a bs) OR b"
  by (simp add: val_acc_def)

lemma val_acc_bits_of: "val_acc a (bits_of n v) = a * 2 ^ n + v mod 2 ^ n"
proof (induction n arbitrary: a)
  case 0
  then show ?case by (simp add: val_acc_def)
next
  case (Suc n)
  have b: "is_bit (drop_bit n v AND 1)" by (simp add: is_bit_def and_one_mod) presburger
  have "val_acc a (bits_of (Suc n) v) = val_acc (push_bit 1 a OR (drop_bit n v AND 1)) (bits_of n v)"
    by (simp add: bits_of_Suc val_acc_def)
  also have "\<dots> = (2 * a + (v div 2 ^ n) mod 2) * 2 ^ n + v mod 2 ^ n"
    by (simp add: Suc.IH shl_or_bit' [OF b, unfolded and_one_mod drop_bit_eq_div] and_one_mod drop_bit_eq_div)
  also have "\<dots> = a * 2 ^ Suc n + v mod 2 ^ Suc n"
  proof -
    have "v mod (2 ^ n * 2) = 2 ^ n * (v div 2 ^ n mod 2) + v mod 2 ^ n"
      by (rule zmod_zmult2_eq) simp
    then have "v mod 2 ^ Suc n = (v div 2 ^ n) mod 2 * 2 ^ n + v mod 2 ^ n"
      by (simp add: mult.commute)
    then show ?thesis by (simp add: algebra_simps)
  qed
  finally show ?case .
qed

lemma bits_of_Suc_snoc: "bits_of (Suc n) v = bits_of n (v div 2) @ [v mod 2]"
proof -
  have "[0..<Suc n] = 0 # map Suc [0..<n]"
    by (simp add: upt_conv_Cons map_Suc_upt del: upt_Suc)
  then have "rev [0..<Suc n] = map Suc (rev [0..<n]) @ [0]"
    by (simp add: rev_map del: upt_Suc)
  then show ?thesis
    by (simp add: bits_of_def and_one_mod drop_bit_Suc del: upt_Suc)
qed

lemma val_acc_bound: "list_all is_bit bs \<Longrightarrow> 0 \<le> val_acc 0 bs \<and> val_acc 0 bs < 2 ^ length bs"
proof (induction bs rule: rev_induct)
  case Nil
  then show ?case by (simp add: val_acc_def)
next
  case (snoc b bs)
  then have b: "is_bit b" and ih: "0 \<le> val_acc 0 bs" "val_acc 0 bs < 2 ^ length bs" by simp_all
  have "val_acc 0 (bs @ [b]) = 2 * val_acc 0 bs + b"
    by (simp add: val_acc_snoc shl_or_bit' [OF b])
  with b ih show ?case by (auto simp: is_bit_def)
qed

lemma bits_of_val_acc: "list_all is_bit bs \<Longrightarrow> bits_of (length bs) (val_acc 0 bs) = bs"
proof (induction bs rule: rev_induct)
  case Nil
  then show ?case by simp
next
  case (snoc b bs)
  then have b: "is_bit b" and ih: "bits_of (length bs) (val_acc 0 bs) = bs" by simp_all
  have v: "val_acc 0 (bs @ [b]) = 2 * val_acc 0 bs + b"
    by (simp add: val_acc_snoc shl_or_bit' [OF b])
  have "(2 * val_acc 0 bs + b) div 2 = val_acc 0 bs" "(2 * val_acc 0 bs + b) mod 2 = b"
    using b by (auto simp: is_bit_def)
  then show ?case by (simp add: bits_of_Suc_snoc v ih)
qed

lemma stuff_append: "stuff (xs @ ys) = stuff xs @ stuff ys"
  by (simp add: stuff_def)

lemma stuff_single: "stuff [b] = (if b = 255 then [255, 0] else [b])"
  by (simp add: stuff_def)

lemma all_bits_append: "all_bits (xs @ ys) = all_bits xs @ all_bits ys"
  by (simp add: all_bits_def)

lemma all_bits_single: "all_bits [b] = bits_of 8 b"
  by (simp add: all_bits_def)

lemma is_bit_and_one: "is_bit (b AND 1)"
  by (simp add: is_bit_def and_one_mod) presburger

lemma byte_of_bits:
  assumes "list_all is_bit pend" "length pend = 8"
  shows "val_acc 0 pend AND 255 = val_acc 0 pend" "bits_of 8 (val_acc 0 pend) = pend"
proof -
  from val_acc_bound [OF assms(1)] assms(2)
  have "0 \<le> val_acc 0 pend" "val_acc 0 pend < 256" by simp_all
  then show "val_acc 0 pend AND 255 = val_acc 0 pend" by (simp add: and_255_mod)
  from bits_of_val_acc [OF assms(1)] assms(2) show "bits_of 8 (val_acc 0 pend) = pend" by simp
qed

lemma winv_init: "winv BitWriter_init []"
  unfolding winv_def
  by (intro exI [of _ "[]"]) (simp add: BitWriter_init_def stuff_def all_bits_def val_acc_def)

lemma winv_write_bit:
  assumes "winv w bits"
  shows "winv (write_bit w b) (bits @ [b AND 1])"
proof -
  from assms obtain bs pend where
    buf: "buffer w = stuff bs" and pb: "list_all is_bit pend" and len: "length pend = wbitpos w"
    and lt: "wbitpos w < 8" and cur: "curr_byte w = val_acc 0 pend" and bits: "bits = all_bits bs @ pend"
    by (auto simp: winv_def)
  let ?pend = "pend @ [b AND 1]"
  have pb': "list_all is_bit ?pend" using pb is_bit_and_one by simp
  have cur': "push_bit 1 (curr_byte w) OR (b AND 1) = val_acc 0 ?pend"
    by (simp only: cur val_acc_snoc)
  have wb: "write_bit w b =
      (let w1 = w\<lparr>curr_byte := val_acc 0 ?pend, wbitpos := wbitpos w + 1\<rparr>
       in if wbitpos w1 = 8 then flush_curr_byte w1 else w1)"
    unfolding write_bit_def cur' by (rule refl)
  show ?thesis
  proof (cases "wbitpos w + 1 = 8")
    case True
    then have l8: "length ?pend = 8" using len by simp
    note bb = byte_of_bits [OF pb' l8]
    have "buffer (write_bit w b) = stuff (bs @ [val_acc 0 ?pend])"
      using True bb(1) by (simp add: wb flush_curr_byte_def Let_def buf stuff_append stuff_single)
    moreover have "curr_byte (write_bit w b) = 0" "wbitpos (write_bit w b) = 0"
      using True by (simp_all add: wb flush_curr_byte_def Let_def)
    moreover have "bits @ [b AND 1] = all_bits (bs @ [val_acc 0 ?pend]) @ []"
      using bb(2) by (simp add: bits all_bits_append all_bits_single)
    ultimately show ?thesis
      unfolding winv_def
      by (intro exI [of _ "bs @ [val_acc 0 ?pend]"] exI [of _ "[]"]) (simp add: val_acc_def)
  next
    case False
    then have "write_bit w b = w\<lparr>curr_byte := val_acc 0 ?pend, wbitpos := wbitpos w + 1\<rparr>"
      by (simp add: wb Let_def)
    then show ?thesis
      unfolding winv_def using False lt len pb' buf bits
      by (intro exI [of _ bs] exI [of _ ?pend]) simp
  qed
qed

lemma winv_fold_write_bit:
  "winv w bits \<Longrightarrow>
   winv (fold (\<lambda>shift w'. write_bit w' (drop_bit shift v AND 1)) ss w)
        (bits @ map (\<lambda>s. drop_bit s v AND 1) ss)"
proof (induction ss arbitrary: w bits)
  case Nil
  then show ?case by simp
next
  case (Cons s ss)
  have "(drop_bit s v AND 1) AND 1 = drop_bit s v AND 1"
    by (simp add: and_one_mod)
  with winv_write_bit [OF Cons.prems, of "drop_bit s v AND 1"]
  have "winv (write_bit w (drop_bit s v AND 1)) (bits @ [drop_bit s v AND 1])" by simp
  from Cons.IH [OF this] show ?case by simp
qed

lemma winv_write_bits: "winv w bits \<Longrightarrow> winv (write_bits w n v) (bits @ bits_of (nat n) v)"
  unfolding write_bits_def bits_of_def by (rule winv_fold_write_bit)

lemma winv_write_fields: "winv w bits \<Longrightarrow> winv (write_fields w fs) (bits @ field_bits fs)"
proof (induction fs arbitrary: w bits)
  case Nil
  then show ?case by (simp add: write_fields_def field_bits_def)
next
  case (Cons f fs)
  obtain n v where f: "f = (n, v)" by (cases f)
  from Cons.IH [OF winv_write_bits [OF Cons.prems, of n v]]
  show ?case by (simp add: f write_fields_def field_bits_def)
qed

lemma val_acc_zeros: "val_acc a (bs @ replicate m 0) = push_bit m (val_acc a bs)"
proof (induction m)
  case 0
  then show ?case by simp
next
  case (Suc m)
  have "bs @ replicate (Suc m) 0 = (bs @ replicate m 0) @ [0]"
    by (simp add: replicate_append_same)
  then have "val_acc a (bs @ replicate (Suc m) 0) = push_bit 1 (val_acc a (bs @ replicate m 0)) OR 0"
    by (simp only: val_acc_snoc)
  then show ?case by (simp add: Suc.IH push_bit_eq_mult)
qed

lemma winv_flush:
  assumes "winv w bits"
  shows "\<exists>bs pad. buffer (flush w) = stuff bs \<and> all_bits bs = bits @ replicate pad 0"
proof -
  from assms obtain bs pend where
    buf: "buffer w = stuff bs" and pb: "list_all is_bit pend" and len: "length pend = wbitpos w"
    and lt: "wbitpos w < 8" and cur: "curr_byte w = val_acc 0 pend" and bits: "bits = all_bits bs @ pend"
    by (auto simp: winv_def)
  show ?thesis
  proof (cases "wbitpos w > 0")
    case False
    then have "pend = []" using len by simp
    then show ?thesis using False buf bits
      by (intro exI [of _ bs] exI [of _ 0]) (simp add: flush_def)
  next
    case True
    let ?pad = "8 - wbitpos w"
    let ?pend = "pend @ replicate ?pad 0"
    have pb': "list_all is_bit ?pend" using pb by (auto simp: list_all_iff is_bit_def)
    have l8: "length ?pend = 8" using len lt by simp
    note bb = byte_of_bits [OF pb' l8]
    have cur': "push_bit ?pad (curr_byte w) = val_acc 0 ?pend"
      by (simp only: cur val_acc_zeros)
    have fl: "flush w = flush_curr_byte (w\<lparr>curr_byte := val_acc 0 ?pend\<rparr>)"
      unfolding flush_def cur' using True by simp
    have "buffer (flush w) = stuff (bs @ [val_acc 0 ?pend])"
      using bb(1) by (simp add: fl flush_curr_byte_def Let_def buf stuff_append stuff_single)
    moreover have "all_bits (bs @ [val_acc 0 ?pend]) = bits @ replicate ?pad 0"
      using bb(2) by (simp add: bits all_bits_append all_bits_single)
    ultimately show ?thesis by blast
  qed
qed

lemma drop_eq_ConsD: "drop n xs = y # ys \<Longrightarrow> n < length xs \<and> xs ! n = y \<and> drop (Suc n) xs = ys"
proof -
  assume a: "drop n xs = y # ys"
  then have lt: "n < length xs" by (cases "n < length xs") auto
  from Cons_nth_drop_Suc [OF lt] a show ?thesis using lt by simp
qed

lemma bits_of_nth: "k < n \<Longrightarrow> bits_of n v ! k = drop_bit (n - Suc k) v AND 1"
  by (simp add: bits_of_def rev_nth del: upt_Suc)

lemma rinv_init: "rinv (BitReader_init (stuff bs)) (all_bits bs)"
  unfolding rinv_def by (intro exI [of _ bs]) (simp add: BitReader_init_def)

lemma rinv_read_bit:
  assumes "rinv r (b # rest)"
  shows "\<exists>r'. read_bit r = Inr (b, r') \<and> rinv r' rest"
proof -
  from assms obtain bs where
    dr: "drop (bytepos r) (data r) = stuff bs" and lt: "bitpos r < 8"
    and bits: "b # rest = drop (bitpos r) (all_bits bs)"
    by (auto simp: rinv_def)
  from bits obtain x xs where bs: "bs = x # xs"
    by (cases bs) (auto simp: all_bits_def)
  let ?k = "bitpos r"
  have ab: "all_bits bs = bits_of 8 x @ all_bits xs"
    by (simp add: bs all_bits_def)
  have st: "stuff bs = (if x = 255 then [255, 0] else [x]) @ stuff xs"
    by (simp add: bs stuff_def)
  have dk: "drop ?k (all_bits bs) = drop ?k (bits_of 8 x) @ all_bits xs"
    using lt by (simp add: ab)
  have "drop ?k (bits_of 8 x) = bits_of 8 x ! ?k # drop (Suc ?k) (bits_of 8 x)"
    using lt by (simp add: Cons_nth_drop_Suc)
  with dk bits have b: "b = drop_bit (7 - ?k) x AND 1"
    and rest: "rest = drop (Suc ?k) (bits_of 8 x) @ all_bits xs"
    using lt by (simp_all add: bits_of_nth)
  from dr st have d0: "drop (bytepos r) (data r) = x # (if x = 255 then [0] else []) @ stuff xs"
    by simp
  from drop_eq_ConsD [OF d0]
  have inb: "bytepos r < length (data r)" and byte: "data r ! bytepos r = x"
    and d1: "drop (Suc (bytepos r)) (data r) = (if x = 255 then [0] else []) @ stuff xs"
    by simp_all
  show ?thesis
  proof (cases "?k + 1 = 8")
    case False
    then have "read_bit r = Inr (b, r\<lparr>bitpos := ?k + 1\<rparr>)"
      using inb lt byte b by (simp add: read_bit_def Let_def)
    moreover have "rinv (r\<lparr>bitpos := ?k + 1\<rparr>) rest"
      unfolding rinv_def using False lt dr
      by (intro exI [of _ bs]) (simp add: rest ab)
    ultimately show ?thesis by blast
  next
    case True
    then have rest': "rest = all_bits xs" by (simp add: rest)
    show ?thesis
    proof (cases "x = 255")
      case x: True
      with d1 have "drop (Suc (bytepos r)) (data r) = 0 # stuff xs" by simp
      from drop_eq_ConsD [OF this]
      have inb2: "Suc (bytepos r) < length (data r)" and z: "data r ! Suc (bytepos r) = 0"
        and d2: "drop (Suc (Suc (bytepos r))) (data r) = stuff xs" by simp_all
      have "read_bit r = Inr (b, r\<lparr>bitpos := 0, bytepos := bytepos r + 2\<rparr>)"
        using inb lt byte b True x inb2 z by (simp add: read_bit_def Let_def)
      moreover have "rinv (r\<lparr>bitpos := 0, bytepos := bytepos r + 2\<rparr>) rest"
        unfolding rinv_def using d2 by (intro exI [of _ xs]) (simp add: rest')
      ultimately show ?thesis by blast
    next
      case x: False
      with d1 have d2: "drop (Suc (bytepos r)) (data r) = stuff xs" by simp
      have "read_bit r = Inr (b, r\<lparr>bitpos := 0, bytepos := bytepos r + 1\<rparr>)"
        using inb lt byte b True x by (simp add: read_bit_def Let_def)
      moreover have "rinv (r\<lparr>bitpos := 0, bytepos := bytepos r + 1\<rparr>) rest"
        unfolding rinv_def using d2 by (intro exI [of _ xs]) (simp add: rest')
      ultimately show ?thesis by blast
    qed
  qed
qed

lemma rinv_read_bits_loop:
  "rinv r (bs @ rest) \<Longrightarrow>
   \<exists>r'. read_bits_loop (length bs) a r = Inr (val_acc a bs, r') \<and> rinv r' rest"
proof (induction bs arbitrary: a r)
  case Nil
  then show ?case by (simp add: val_acc_def)
next
  case (Cons b bs)
  from Cons.prems have "rinv r (b # (bs @ rest))" by simp
  from rinv_read_bit [OF this] obtain r1 where
    rb: "read_bit r = Inr (b, r1)" and r1: "rinv r1 (bs @ rest)" by blast
  from Cons.IH [OF r1, of "push_bit 1 a OR b"] obtain r' where
    "read_bits_loop (length bs) (push_bit 1 a OR b) r1 = Inr (val_acc (push_bit 1 a OR b) bs, r')"
    and r': "rinv r' rest" by blast
  then have "read_bits_loop (length (b # bs)) a r = Inr (val_acc a (b # bs), r')"
    using rb by (simp add: val_acc_def)
  with r' show ?case by blast
qed

lemma rinv_read_bits:
  assumes "rinv r (bits_of (nat n) v @ rest)" "0 \<le> v" "v < 2 ^ nat n"
  shows "\<exists>r'. read_bits n r = Inr (v, r') \<and> rinv r' rest"
proof -
  from rinv_read_bits_loop [OF assms(1), of 0] obtain r' where
    "read_bits_loop (nat n) 0 r = Inr (val_acc 0 (bits_of (nat n) v), r')" and r': "rinv r' rest"
    by auto
  moreover have "val_acc 0 (bits_of (nat n) v) = v"
    using assms(2,3) by (simp add: val_acc_bits_of)
  ultimately show ?thesis by (auto simp: read_bits_def)
qed

lemma rinv_read_fields:
  "rinv r (field_bits fs @ rest) \<Longrightarrow> \<forall>(n, v) \<in> set fs. 0 \<le> v \<and> v < 2 ^ nat n \<Longrightarrow>
   \<exists>r'. read_fields r (map fst fs) = Inr (map snd fs, r') \<and> rinv r' rest"
proof (induction fs arbitrary: r)
  case Nil
  then show ?case by (simp add: field_bits_def)
next
  case (Cons f fs)
  obtain n v where f: "f = (n, v)" by (cases f)
  from Cons.prems(2) f have v: "0 \<le> v" "v < 2 ^ nat n"
    and rest: "\<forall>(n, v) \<in> set fs. 0 \<le> v \<and> v < 2 ^ nat n" by auto
  from Cons.prems(1) have "rinv r (bits_of (nat n) v @ (field_bits fs @ rest))"
    by (simp add: f field_bits_def)
  from rinv_read_bits [OF this v] obtain r1 where
    rb: "read_bits n r = Inr (v, r1)" and r1: "rinv r1 (field_bits fs @ rest)" by blast
  from Cons.IH [OF r1 rest] obtain r' where
    "read_fields r1 (map fst fs) = Inr (map snd fs, r')" and r': "rinv r' rest" by blast
  then have "read_fields r (map fst (f # fs)) = Inr (map snd (f # fs), r')"
    using rb by (simp add: f)
  with r' show ?case by blast
qed

text \<open>
  Claim C2. Any sequence of fields \<open>(width, value)\<close> with \<open>0 \<le> value < 2 ^ width\<close>,
  written by \<open>write_bits\<close> into a fresh writer and finalised by \<open>get_bytes\<close>, is read
  back by \<open>read_bits\<close> with the same widths from a fresh reader over those bytes: the
  reader raises nothing and returns exactly the values written, whatever number of 0xFF
  bytes were stuffed and whether or not the last byte was padded.
\<close>

theorem bitstream_round_trip:
  assumes "\<forall>(n, v) \<in> set fs. 0 \<le> v \<and> v < 2 ^ nat n"
  shows "map_sum id fst
           (read_fields (BitReader_init (fst (get_bytes (write_fields BitWriter_init fs))))
              (map fst fs)) = Inr (map snd fs)"
proof -
  from winv_write_fields [OF winv_init, of fs]
  have "winv (write_fields BitWriter_init fs) (field_bits fs)" by simp
  from winv_flush [OF this] obtain bs pad where
    buf: "buffer (flush (write_fields BitWriter_init fs)) = stuff bs"
    and ab: "all_bits bs = field_bits fs @ replicate pad 0" by blast
  have "rinv (BitReader_init (stuff bs)) (field_bits fs @ replicate pad 0)"
    using rinv_init [of bs] by (simp add: ab)
  from rinv_read_fields [OF this assms] obtain r' where
    "read_fields (BitReader_init (stuff bs)) (map fst fs) = Inr (map snd fs, r')" by blast
  then show ?thesis by (simp add: get_bytes_def Let_def buf)
qed

text \<open>
  The fields (8, 255) and (3, 5) give the bytes 0xFF, 0x00 (stuffed) and 0xA0 (padded).
\<close>

lemma write_fields_example:
  "fst (get_bytes (write_fields BitWriter_init [(8, 255), (3, 5)])) = [255, 0, 160]"
  by (simp add: write_fields_def get_bytes_def flush_def write_bits_def write_bit_def
      flush_curr_byte_def BitWriter_init_def Let_def upt_rec numeral_nat drop_bit_eq_div
      push_bit_eq_mult)

theorem bitstream_round_trip_witness:
  "(0::int) \<le> 255 \<and> (255::int) < 2 ^ nat 8 \<and> (0::int) \<le> 5 \<and> (5::int) < 2 ^ nat 3 \<and>
   map_sum id fst
     (read_fields (BitReader_init (fst (get_bytes (write_fields BitWriter_init [(8, 255), (3, 5)]))))
        [8, 3]) = Inr [255, 5]"
  using bitstream_round_trip [of "[(8, 255), (3, 5)]"] by simp

section \<open>Zig-zag inverse law\<close>

lemma scatter_Nil [simp]: "scatter arr n [] f = f"
  by (simp add: scatter_def)

lemma scatter_Cons [simp]: "scatter arr n (z # zs) f = scatter arr (Suc n) zs (f[z := arr ! n])"
  by (simp add: scatter_def)

lemma length_scatter [simp]: "length (scatter arr n zs f) = length f"
  by (induction zs arbitrary: n f) simp_all

lemma scatter_other: "i \<notin> set zs \<Longrightarrow> scatter arr n zs f ! i = f ! i"
  by (induction zs arbitrary: n f) auto

lemma scatter_nth:
  "distinct zs \<Longrightarrow> \<forall>z \<in> set zs. z < length f \<Longrightarrow> k < length zs \<Longrightarrow>
   scatter arr n zs f ! (zs ! k) = arr ! (n + k)"
proof (induction zs arbitrary: n f k)
  case Nil
  then show ?case by simp
next
  case (Cons z zs)
  show ?case
  proof (cases k)
    case 0
    with Cons.prems show ?thesis by (simp add: scatter_other)
  next
    case (Suc k')
    with Cons.prems Cons.IH [of "f[z := arr ! n]" k' "Suc n"] show ?thesis by simp
  qed
qed

lemma zz_length: "length ZIGZAG_ORDER = 64"
  by (simp add: ZIGZAG_ORDER_def)

lemma zz_bound: "\<forall>z \<in> set ZIGZAG_ORDER. z < 64"
  by (simp add: ZIGZAG_ORDER_def)

lemma zz_distinct: "distinct ZIGZAG_ORDER"
  by (simp add: ZIGZAG_ORDER_def)

lemma zz_set: "set ZIGZAG_ORDER = {0..<64}"
proof (rule card_subset_eq)
  show "finite {0..<64::nat}" by simp
  show "set ZIGZAG_ORDER \<subseteq> {0..<64}" using zz_bound by auto
  show "card (set ZIGZAG_ORDER) = card {0..<64::nat}"
    using distinct_card [OF zz_distinct] zz_length by simp
qed

lemma upt8: "[0..<8] = [0, 1, 2, 3, 4, 5, 6, 7]"
  by (simp add: upt_rec numeral_nat)

lemma upt64: "[0..<64] = concat (map (\<lambda>r. map (\<lambda>c. r * 8 + c) [0..<8]) [0..<8])"
  unfolding upt8 by (simp add: upt_rec numeral_nat)

lemma length_flatten [simp]: "length (flatten block) = 64"
  by (simp add: flatten_def upt8)

lemma flatten_rows_of:
  assumes "length flat = 64"
  shows "flatten (rows_of flat) = flat"
proof -
  have "flatten (rows_of flat) = map ((!) flat) (concat (map (\<lambda>r. map (\<lambda>c. r * 8 + c) [0..<8]) [0..<8]))"
    unfolding flatten_def rows_of_def upt8 by simp
  also have "\<dots> = map ((!) flat) [0..<length flat]"
    by (simp only: upt64 assms)
  finally show ?thesis by (simp only: map_nth)
qed

lemma is_8x8_rows:
  assumes "is_8x8 M"
  shows "M = map (\<lambda>i. map (\<lambda>j. M ! i ! j) [0..<8]) [0..<8]"
proof -
  from assms have len: "length M = 8" and rows: "\<forall>row \<in> set M. length row = 8"
    by (auto simp: is_8x8_def list_ex_iff)
  have "M = map (\<lambda>i. M ! i) [0..<8]"
    using map_nth [of M] len by simp
  also have "\<dots> = map (\<lambda>i. map (\<lambda>j. M ! i ! j) [0..<8]) [0..<8]"
  proof (rule map_cong [OF refl])
    fix i assume "i \<in> set [0..<8]"
    then have "M ! i \<in> set M" using len by simp
    with rows have "length (M ! i) = 8" by blast
    then show "M ! i = map (\<lambda>j. M ! i ! j) [0..<8]"
      using map_nth [of "M ! i"] by simp
  qed
  finally show ?thesis .
qed

lemma rows_of_flatten:
  assumes "is_8x8 M"
  shows "rows_of (flatten M) = M"
proof -
  have "rows_of (flatten M) = map (\<lambda>i. map (\<lambda>j. M ! i ! j) [0..<8]) [0..<8]"
    unfolding flatten_def rows_of_def upt8 by simp
  with is_8x8_rows [OF assms] show ?thesis by simp
qed

lemma gather_scatter:
  assumes "length arr = 64"
  shows "map ((!) (scatter arr 0 ZIGZAG_ORDER (replicate 64 0))) ZIGZAG_ORDER = arr"
proof (rule nth_equalityI)
  show "length (map ((!) (scatter arr 0 ZIGZAG_ORDER (replicate 64 0))) ZIGZAG_ORDER) = length arr"
    by (simp add: zz_length assms)
next
  fix k
  assume "k < length (map ((!) (scatter arr 0 ZIGZAG_ORDER (replicate 64 0))) ZIGZAG_ORDER)"
  then have k: "k < length ZIGZAG_ORDER" by simp
  have b: "\<forall>z \<in> set ZIGZAG_ORDER. z < length (replicate 64 (0::int))"
    using zz_bound by simp
  from scatter_nth [OF zz_distinct b k, of arr 0] k
  show "map ((!) (scatter arr 0 ZIGZAG_ORDER (replicate 64 0))) ZIGZAG_ORDER ! k = arr ! k"
    by simp
qed

lemma scatter_gather:
  assumes "length flat = 64"
  shows "scatter (map ((!) flat) ZIGZAG_ORDER) 0 ZIGZAG_ORDER (replicate 64 0) = flat"
proof (rule nth_equalityI)
  show "length (scatter (map ((!) flat) ZIGZAG_ORDER) 0 ZIGZAG_ORDER (replicate 64 0)) = length flat"
    by (simp add: assms)
next
  fix i
  assume "i < length (scatter (map ((!) flat) ZIGZAG_ORDER) 0 ZIGZAG_ORDER (replicate 64 0))"
  then have "i \<in> set ZIGZAG_ORDER" by (simp add: zz_set)
  then obtain k where k: "k < length ZIGZAG_ORDER" and i: "ZIGZAG_ORDER ! k = i"
    by (auto simp: in_set_conv_nth)
  have b: "\<forall>z \<in> set ZIGZAG_ORDER. z < length (replicate 64 (0::int))"
    using zz_bound by simp
  from scatter_nth [OF zz_distinct b k, of "map ((!) flat) ZIGZAG_ORDER" 0] k i
  show "scatter (map ((!) flat) ZIGZAG_ORDER) 0 ZIGZAG_ORDER (replicate 64 0) ! i = flat ! i"
    by simp
qed

lemma zigzag_order_eq: "is_8x8 M \<Longrightarrow> zigzag_order M = Inr (map ((!) (flatten M)) ZIGZAG_ORDER)"
  by (simp add: zigzag_order_def is_8x8_def flatten_def Let_def)

lemma inverse_zigzag_eq:
  "length arr = 64 \<Longrightarrow> inverse_zigzag arr = Inr (rows_of (scatter arr 0 ZIGZAG_ORDER (replicate 64 0)))"
  by (simp add: inverse_zigzag_def rows_of_def scatter_def Let_def)

lemma is_8x8_rows_of: "is_8x8 (rows_of flat)"
  by (simp add: is_8x8_def rows_of_def upt8)

text \<open>
  Claim C8. \<open>zigzag_order\<close> and \<open>inverse_zigzag\<close> are mutual inverses: an 8 by 8 block
  is returned unchanged by \<open>zigzag_order\<close> followed by \<open>inverse_zigzag\<close>, a list of 64
  entries is returned unchanged by \<open>inverse_zigzag\<close> followed by \<open>zigzag_order\<close>, and
  each function raises \<open>ValueError\<close> on an argument of any other shape.
\<close>

theorem zigzag_inverse:
  "(is_8x8 M \<longrightarrow> bind_e (zigzag_order M) inverse_zigzag = Inr M) \<and>
   (length S = 64 \<longrightarrow> bind_e (inverse_zigzag S) zigzag_order = Inr S) \<and>
   (\<not> is_8x8 M \<longrightarrow> zigzag_order M = Inl ValueError) \<and>
   (length S \<noteq> 64 \<longrightarrow> inverse_zigzag S = Inl ValueError)"
proof (intro conjI impI)
  assume m: "is_8x8 M"
  have "inverse_zigzag (map ((!) (flatten M)) ZIGZAG_ORDER) = Inr M"
    by (simp add: inverse_zigzag_eq zz_length scatter_gather rows_of_flatten [OF m])
  then show "bind_e (zigzag_order M) inverse_zigzag = Inr M"
    by (simp add: bind_e_def zigzag_order_eq [OF m])
next
  assume s: "length S = 64"
  let ?flat = "scatter S 0 ZIGZAG_ORDER (replicate 64 0)"
  have "zigzag_order (rows_of ?flat) = Inr S"
    by (simp add: zigzag_order_eq [OF is_8x8_rows_of] flatten_rows_of gather_scatter [OF s])
  then show "bind_e (inverse_zigzag S) zigzag_order = Inr S"
    by (simp add: bind_e_def inverse_zigzag_eq [OF s])
next
  assume "\<not> is_8x8 M"
  then show "zigzag_order M = Inl ValueError"
    by (auto simp: zigzag_order_def is_8x8_def)
next
  assume "length S \<noteq> 64"
  then show "inverse_zigzag S = Inl ValueError"
    by (simp add: inverse_zigzag_def)
qed

theorem zigzag_inverse_witness:
  "is_8x8 (replicate 8 [1, 2, 3, 4, 5, 6, 7, 8]) \<and>
   bind_e (zigzag_order (replicate 8 [1, 2, 3, 4, 5, 6, 7, 8])) inverse_zigzag
     = Inr (replicate 8 [1, 2, 3, 4, 5, 6, 7, 8]) \<and>
   length (map int ZIGZAG_ORDER) = 64 \<and>
   bind_e (inverse_zigzag (map int ZIGZAG_ORDER)) zigzag_order = Inr (map int ZIGZAG_ORDER) \<and>
   \<not> is_8x8 [[1, 2, 3]] \<and> zigzag_order [[1, 2, 3]] = Inl ValueError \<and>
   length [1, 2, 3 :: int] \<noteq> 64 \<and> inverse_zigzag [1, 2, 3] = Inl ValueError"
proof -
  have a: "is_8x8 (replicate 8 [1, 2, 3, 4, 5, 6, 7, 8])"
    by (simp add: is_8x8_def list_ex_iff)
  have b: "length (map int ZIGZAG_ORDER) = 64" by (simp add: zz_length)
  have c: "\<not> is_8x8 [[1, 2, 3]]" by (simp add: is_8x8_def)
  have d: "length [1, 2, 3 :: int] \<noteq> 64" by simp
  from zigzag_inverse [of "replicate 8 [1, 2, 3, 4, 5, 6, 7, 8]" "map int ZIGZAG_ORDER"]
    zigzag_inverse [of "[[1, 2, 3]]" "[1, 2, 3]"] a b c d
  show ?thesis by blast
qed

section \<open>Run-length round trip\<close>

lemma emit_zrl_eq: "0 \<le> run \<Longrightarrow> emit_zrl out run = (out @ replicate (nat (run div 16)) ZRL, run mod 16)"
proof (induction out run rule: emit_zrl.induct)
  case (1 out run)
  show ?case
  proof (cases "run > 15")
    case True
    then have r: "0 \<le> run - 16" by simp
    have d: "run div 16 = (run - 16) div 16 + 1"
      using div_add_self2 [of 16 "run - 16"] by simp
    have "0 \<le> (run - 16) div 16" using r by simp
    then have n: "nat (run div 16) = Suc (nat ((run - 16) div 16))" unfolding d by simp
    have m: "(run - 16) mod 16 = run mod 16" by simp
    have "emit_zrl out run = emit_zrl (out @ [ZRL]) (run - 16)"
      using True by (subst emit_zrl.simps) simp
    also have "\<dots> = ((out @ [ZRL]) @ replicate (nat ((run - 16) div 16)) ZRL, (run - 16) mod 16)"
      by (rule "1.IH" [OF True r])
    also have "\<dots> = (out @ replicate (nat (run div 16)) ZRL, run mod 16)"
      unfolding n m by simp
    finally show ?thesis .
  next
    case False
    with "1.prems" have "run div 16 = 0" "run mod 16 = run" by simp_all
    then show ?thesis using False by (subst emit_zrl.simps) simp
  qed
qed

lemma encode_ac_loop_eq:
  "0 \<le> run \<Longrightarrow>
   (case encode_ac_loop cs run out of (out', run') \<Rightarrow> if run' > 0 then out' @ [EOB] else out')
     = out @ enc_spec cs run"
proof (induction cs arbitrary: run out)
  case Nil
  then show ?case by simp
next
  case (Cons c cs)
  show ?case
  proof (cases "c = 0")
    case True
    from Cons.prems have "0 \<le> run + 1" by simp
    from Cons.IH [OF this] True show ?thesis by simp
  next
    case False
    have "(0::int) \<le> 0" by simp
    from Cons.IH [OF this] False show ?thesis
      by (simp add: emit_zrl_eq [OF Cons.prems] Let_def)
  qed
qed

lemma zstate_store:
  assumes "length pre < 64"
  shows "(fst (zstate pre))[length pre := c] = fst (zstate (pre @ [c]))"
proof -
  from assms have e: "64 - length pre = Suc (63 - length pre)" by simp
  show ?thesis unfolding zstate_def fst_conv e by (simp add: list_update_append)
qed

lemma zstate_snoc0:
  assumes "length pre < 64"
  shows "fst (zstate (pre @ [0])) = fst (zstate pre)"
proof -
  from assms have e: "64 - length pre = Suc (63 - length pre)" by simp
  show ?thesis unfolding zstate_def fst_conv e by simp
qed

lemma snd_zstate: "snd (zstate pre) = length pre"
  by (simp add: zstate_def)

lemma zstate_split: "zstate pre = (fst (zstate pre), length pre)"
  by (simp add: zstate_def)

lemma fill_zeros_zstate:
  "length pre + k \<le> 64 \<Longrightarrow> fill_zeros k (zstate pre) = zstate (pre @ replicate k 0)"
proof (induction k arbitrary: pre)
  case 0
  then show ?case by simp
next
  case (Suc k)
  then have lt: "length pre < 64" by simp
  from Suc.prems have "length (pre @ [0]) + k \<le> 64" by simp
  from Suc.IH [OF this] have ih: "fill_zeros k (zstate (pre @ [0])) = zstate (pre @ replicate (Suc k) 0)"
    by (simp add: replicate_append_same)
  have "fill_zeros (Suc k) (zstate pre) = fill_zeros (Suc k) (fst (zstate pre), length pre)"
    by (simp only: zstate_split [symmetric])
  also have "\<dots> = fill_zeros k ((fst (zstate pre))[length pre := 0], length pre + 1)"
    using lt by simp
  also have "((fst (zstate pre))[length pre := 0], length pre + 1) = zstate (pre @ [0])"
    using zstate_store [OF lt, of 0] zstate_split [of "pre @ [0]"] by simp
  finally show ?case using ih by simp
qed

lemma fill_rest_zstate:
  "length pre \<le> 64 \<Longrightarrow> fill_rest (zstate pre) = (fst (zstate pre), 64)"
proof (induction "64 - length pre" arbitrary: pre)
  case 0
  then have "length pre = 64" by simp
  then show ?case by (subst zstate_split) (simp add: fill_rest.simps)
next
  case (Suc k)
  then have lt: "length pre < 64" by simp
  have "k = 64 - length (pre @ [0])" using Suc(2) by simp
  from Suc(1) [OF this] lt
  have ih: "fill_rest (zstate (pre @ [0])) = (fst (zstate pre), 64)"
    by (simp add: zstate_snoc0 [OF lt])
  have "fill_rest (zstate pre) = fill_rest (fst (zstate pre), length pre)"
    by (simp only: zstate_split [symmetric])
  also have "\<dots> = fill_rest ((fst (zstate pre))[length pre := 0], length pre + 1)"
    using lt by (subst fill_rest.simps) simp
  also have "((fst (zstate pre))[length pre := 0], length pre + 1) = zstate (pre @ [0])"
    using zstate_store [OF lt, of 0] zstate_split [of "pre @ [0]"] by simp
  finally show ?case using ih by simp
qed

lemma fill_rest_done: "fill_rest (cs, 64) = (cs, 64)"
  by (simp add: fill_rest.simps)

lemma fst_zstate_full: "length pre = 64 \<Longrightarrow> fst (zstate pre) = pre"
  by (simp add: zstate_def)

lemma fst_zstate: "fst (zstate pre) = pre @ replicate (64 - length pre) 0"
  by (simp add: zstate_def)

lemma decode_zrls:
  "length pre + 16 * k \<le> 64 \<Longrightarrow>
   decode_ac_loop (replicate k ZRL @ syms) (zstate pre) = decode_ac_loop syms (zstate (pre @ replicate (16 * k) 0))"
proof (induction k arbitrary: pre)
  case 0
  then show ?case by simp
next
  case (Suc k)
  have rz: "replicate (Suc k) ZRL @ syms = ZRL # (replicate k ZRL @ syms)" by simp
  from Suc have a: "length pre + 16 \<le> 64" and b: "length (pre @ replicate 16 0) + 16 * k \<le> 64" by simp_all
  have "replicate 16 (0::int) @ replicate (16 * k) 0 = replicate (16 * Suc k) 0"
    by (simp add: replicate_add [symmetric] del: replicate_Suc)
  with Suc.IH [OF b] show ?case
    unfolding rz by (simp add: fill_zeros_zstate [OF a] del: fill_zeros.simps replicate.simps)
qed

lemma decode_enc_spec:
  "0 \<le> run \<Longrightarrow> length pre + nat run + length cs = 64 \<Longrightarrow>
   \<exists>s. decode_ac_loop (enc_spec cs run) (zstate pre) = Inr s \<and>
       fst (fill_rest s) = pre @ replicate (nat run) 0 @ cs"
proof (induction cs arbitrary: run pre)
  case Nil
  then have len: "length pre \<le> 64" "64 - length pre = nat run" by simp_all
  show ?case
  proof (cases "run > 0")
    case True
    then show ?thesis
      using fill_rest_zstate [OF len(1)] len(2) by (simp add: fill_rest_done fst_zstate)
  next
    case False
    then show ?thesis using fill_rest_zstate [OF len(1)] len(2) Nil.prems by (simp add: fst_zstate)
  qed
next
  case (Cons c cs)
  show ?case
  proof (cases "c = 0")
    case True
    have r: "0 \<le> run + 1" using Cons.prems by simp
    have l: "length pre + nat (run + 1) + length cs = 64" using Cons.prems by simp
    have "replicate (nat (run + 1)) (0::int) = replicate (nat run) 0 @ [0]"
      using Cons.prems(1) by (simp add: nat_add_distrib replicate_append_same)
    with Cons.IH [OF r l] True show ?thesis by simp
  next
    case False
    let ?k = "nat (run div 16)" and ?m = "nat (run mod 16)"
    let ?sz = "if c > 0 then bit_length c else bit_length (- c)"
    have "run = 16 * (run div 16) + run mod 16" by simp
    then have "nat run = nat (16 * (run div 16) + run mod 16)" by simp
    also have "\<dots> = nat (16 * (run div 16)) + nat (run mod 16)"
      using Cons.prems(1) by (intro nat_add_distrib) simp_all
    also have "nat (16 * (run div 16)) = 16 * ?k"
      using nat_mult_distrib [of 16 "run div 16"] by simp
    finally have run: "nat run = 16 * ?k + ?m" .
    have a: "length pre + 16 * ?k \<le> 64" using Cons.prems(2) run by simp
    let ?pre1 = "pre @ replicate (16 * ?k) 0"
    have b: "length ?pre1 + ?m \<le> 64" using Cons.prems(2) run by simp
    let ?pre2 = "?pre1 @ replicate ?m 0"
    have c: "length ?pre2 < 64" using Cons.prems(2) run by simp
    have p2: "?pre2 = pre @ replicate (nat run) 0"
      by (simp add: run replicate_add)
    have l: "length (?pre2 @ [c]) + nat 0 + length cs = 64" using Cons.prems(2) run by simp
    from Cons.IH [OF _ l] obtain s where
      s: "decode_ac_loop (enc_spec cs 0) (zstate (?pre2 @ [c])) = Inr s"
      and f: "fst (fill_rest s) = (?pre2 @ [c]) @ replicate (nat 0) 0 @ cs" by auto
    have st: "((fst (zstate ?pre2))[length ?pre2 := c], length ?pre2 + 1) = zstate (?pre2 @ [c])"
      using zstate_store [OF c, of c] zstate_split [of "?pre2 @ [c]"] by simp
    have "decode_ac_loop (enc_spec (c # cs) run) (zstate pre)
        = decode_ac_loop (AC (run mod 16) ?sz c # enc_spec cs 0) (zstate ?pre1)"
      using False decode_zrls [OF a] by simp
    also have "\<dots> = decode_ac_loop (enc_spec cs 0) ((fst (zstate ?pre2))[length ?pre2 := c], length ?pre2 + 1)"
      using c by (subst decode_ac_loop.simps, subst fill_zeros_zstate [OF b], subst zstate_split) simp
    also have "\<dots> = decode_ac_loop (enc_spec cs 0) (zstate (?pre2 @ [c]))"
      by (simp only: st)
    finally have eq: "decode_ac_loop (enc_spec (c # cs) run) (zstate pre) = Inr s"
      by (simp only: s)
    from f have "fst (fill_rest s) = pre @ replicate (nat run) 0 @ c # cs"
      unfolding p2 by simp
    with eq show ?thesis by blast
  qed
qed

lemma encode_ac_eq:
  assumes "length coeffs = 64"
  shows "encode_ac coeffs = Inr (DC (hd coeffs) # enc_spec (tl coeffs) 0)"
proof -
  from assms obtain c0 cs where c: "coeffs = c0 # cs" by (cases coeffs) auto
  obtain out run where l: "encode_ac_loop cs 0 [DC c0] = (out, run)"
    by (cases "encode_ac_loop cs 0 [DC c0]")
  from encode_ac_loop_eq [of 0 cs "[DC c0]"] l
  have "(if run > 0 then out @ [EOB] else out) = DC c0 # enc_spec cs 0" by simp
  then show ?thesis using assms l by (simp add: encode_ac_def c)
qed

text \<open>
  Claim C6. For every list of 64 integers, \<open>encode_ac\<close> returns a symbol list and
  \<open>decode_ac\<close> of that list returns the 64 integers again.
\<close>

theorem rle_round_trip:
  assumes "length coeffs = 64"
  shows "bind_e (encode_ac coeffs) decode_ac = Inr coeffs"
proof -
  from assms obtain c0 cs where c: "coeffs = c0 # cs" and lcs: "length cs = 63"
    by (cases coeffs) auto
  have z: "((replicate 64 0)[0 := c0], 1) = zstate [c0]"
    by (simp add: zstate_def numeral_eq_Suc)
  have "length [c0] + nat 0 + length cs = 64" using lcs by simp
  from decode_enc_spec [OF _ this] obtain s where
    s: "decode_ac_loop (enc_spec cs 0) (zstate [c0]) = Inr s"
    and f: "fst (fill_rest s) = [c0] @ replicate (nat 0) 0 @ cs" by auto
  have "decode_ac (DC c0 # enc_spec cs 0) = Inr coeffs"
    unfolding decode_ac_def list.case symbol.case z s using f by (simp add: c)
  moreover have "encode_ac coeffs = Inr (DC c0 # enc_spec cs 0)"
    using encode_ac_eq [OF assms] by (simp add: c)
  ultimately show ?thesis
    by (simp add: bind_e_def)
qed

lemma encode_ac_example:
  "encode_ac (5 # replicate 20 0 @ [3] @ replicate 42 0) = Inr [DC 5, ZRL, AC 4 2 3, EOB]"
  by (simp add: encode_ac_def numeral_eq_Suc emit_zrl.simps bit_length.simps)

theorem rle_round_trip_witness:
  "length (5 # replicate 20 0 @ [3] @ replicate 42 (0::int)) = 64 \<and>
   bind_e (encode_ac (5 # replicate 20 0 @ [3] @ replicate 42 0)) decode_ac
     = Inr (5 # replicate 20 0 @ [3] @ replicate 42 0)"
  using rle_round_trip [of "5 # replicate 20 0 @ [3] @ replicate 42 0"] by simp

section \<open>Huffman decoding\<close>

lemma std_dc_table_built: "HuffmanTable_init std_dc_lengths std_dc_symbols = Inr std_dc_table"
  by (simp add: HuffmanTable_init_def std_dc_lengths_def std_dc_symbols_def std_dc_table_def
      numeral_nat push_bit_eq_mult)

lemma encode_std_dc_1: "encode std_dc_table 1 = Inr (2, 3)"
  by (simp add: encode_def dict_get_def std_dc_table_def)

lemma write_code_std_dc_1: "fst (get_bytes (write_bits BitWriter_init 3 2)) = [64]"
  by (simp add: get_bytes_def flush_def write_bits_def write_bit_def
      flush_curr_byte_def BitWriter_init_def Let_def upt_rec numeral_nat drop_bit_eq_div
      push_bit_eq_mult)

lemma decode_std_dc_1: "map_sum id fst (decode std_dc_table (BitReader_init [64])) = Inr 0"
  by (simp add: decode_def upt_conv_Cons read_bit_def BitReader_init_def Let_def
      std_dc_table_def drop_bit_eq_div push_bit_eq_mult)

text \<open>
  Claim C7. The table is the standard luminance DC table of the JPEG standard (one code
  of length 2, five of length 3, one each of lengths 4 to 9; symbols 0 to 11), a valid
  pair of length counts and symbols. Symbol 1 is present and \<open>encode\<close> gives it the code
  010 of length 3. The claim says that \<open>decode\<close> on those bits returns symbol 1.
  \<open>decode\<close> returns symbol 0 after the first bit: the bit 0 shifted to 16 bits is the
  key 0 of \<open>decode_map\<close>, which belongs to the code 00 of symbol 0, and the length stored
  with that key is not compared with the number of bits read.
\<close>

theorem huffman_decode_wrong_symbol:
  "bind_e (HuffmanTable_init std_dc_lengths std_dc_symbols) (\<lambda>t.
     bind_e (encode t 1) (\<lambda>(code, len).
       map_sum id fst
         (decode t (BitReader_init (fst (get_bytes (write_bits BitWriter_init len code)))))))
   = Inr 0"
  by (simp add: std_dc_table_built bind_e_def encode_std_dc_1 write_code_std_dc_1 decode_std_dc_1)

section \<open>Parsing: stuffed bytes in the scan\<close>

text \<open>
  Claim C1. In the file below the scan header is followed by the entropy-coded bytes
  0x12, 0xFF, 0x00, 0x00, 0x02, 0x34, which hold the stuffed pair 0xFF, 0x00. The claim
  says that \<open>scan_data\<close> keeps both bytes of the pair. \<open>parse_jpeg\<close> takes the pair as a
  segment with marker 0x00 instead, reads the next two bytes as its length, and returns
  only 0x12, 0x34 as \<open>scan_data\<close>.
\<close>

theorem parse_jpeg_stuffed_pair:
  "parse_jpeg_bytes [255, 216, 255, 218, 0, 3, 1, 18, 255, 0, 0, 2, 52, 255, 217] =
     Inr \<lparr>segments = [(218, [1]), (0, []), (217, [])], quant_tables = [], huff_tables = [],
          frame_header = None, scan_header = Some [1], scan_data = [18, 52]\<rparr>"
  by (simp add: parse_jpeg_bytes_def parsed_init_def parse_loop.simps on_segment_def
      EOI_def DQT_def DHT_def SOF0_def SOS_def)

lemma on_segment_scan_data: "on_segment m p st = Inr st' \<Longrightarrow> scan_data st' = scan_data st"
  by (auto simp: on_segment_def split: if_splits sum.splits)

text \<open>No byte 0xFF ever reaches \<open>scan_data\<close>, so no stuffed pair is ever kept.\<close>

lemma parse_loop_no_ff:
  "parse_loop dat ptr st = Inr st' \<Longrightarrow> 255 \<notin> set (scan_data st) \<Longrightarrow> 255 \<notin> set (scan_data st')"
proof (induction dat ptr st rule: parse_loop.induct)
  case (1 dat ptr st)
  show ?case
  proof (cases "ptr < length dat")
    case False
    with "1.prems" show ?thesis by (simp add: parse_loop.simps)
  next
    case lt: True
    show ?thesis
    proof (cases "dat ! ptr \<noteq> 255")
      case True
      with lt "1.prems" "1.IH"(1) show ?thesis
        by (subst (asm) parse_loop.simps) simp
    next
      case ff: False
      from "1.prems"(1) lt ff have a: "\<not> length dat \<le> ptr + 1"
        by (subst (asm) parse_loop.simps) (auto split: if_splits)
      show ?thesis
      proof (cases "dat ! (ptr + 1) = EOI")
        case True
        with "1.prems" lt ff a show ?thesis
          by (subst (asm) parse_loop.simps) auto
      next
        case ne: False
        from "1.prems"(1) lt ff a ne have b: "\<not> length dat < ptr + 4"
          by (subst (asm) parse_loop.simps) (auto split: if_splits)
        let ?len = "nat (dat ! (ptr + 2) * 256 + dat ! (ptr + 3))"
        let ?payload = "take (?len - 2) (drop (ptr + 4) dat)"
        let ?st1 = "st\<lparr>segments := segments st @ [(dat ! (ptr + 1), ?payload)]\<rparr>"
        from "1.prems"(1) lt ff a ne b obtain st2 where
          os: "on_segment (dat ! (ptr + 1)) ?payload ?st1 = Inr st2"
          and pl: "parse_loop dat (ptr + 2 + ?len) st2 = Inr st'"
          by (subst (asm) parse_loop.simps) (auto split: sum.splits)
        from on_segment_scan_data [OF os] "1.prems"(2) have "255 \<notin> set (scan_data st2)" by simp
        from "1.IH"(2) [OF lt _ a ne b os pl this] ff show ?thesis by simp
      qed
    qed
  qed
qed

section \<open>Rebuilding: the end-of-image entry\<close>

lemma dqt_ones: "dqt_table_bytes 0 (replicate 8 (replicate 8 1)) = Inr (0 # replicate 64 1)"
  by (simp add: dqt_table_bytes_def upt8 ZIGZAG_ORDER_def is_bytes_def is_byte_def numeral_nat)

lemma dqt_segment_ones:
  "bind_e (rebuild_dqt_payload [(0, replicate 8 (replicate 8 1))]) (build_segment DQT)
     = Inr ([255, 219, 0, 67, 0] @ replicate 64 1)"
  by (simp add: dqt_ones bind_e_def build_segment_def DQT_def is_byte_def)

lemma rebuild_chunks_example:
  "rebuild_chunks
     [(224, [74, 70]), (219, 0 # replicate 64 1), (192, [8]), (196, [0]), (218, [1]), (217, [])]
     192 [8] (Some [1]) [(0, replicate 8 (replicate 8 1))] [18, 52] =
   [Inr [255, 216], Inr [255, 224, 0, 4, 74, 70], Inr ([255, 219, 0, 67, 0] @ replicate 64 1),
    Inr [255, 192, 0, 3, 8], Inr [255, 196, 0, 3, 0], Inr [255, 217, 0, 2],
    Inr [255, 218, 0, 3, 1], Inr [18, 52], Inr [255, 217]]"
  unfolding rebuild_chunks_def dqt_segment_ones
  by (simp add: build_segment_def is_byte_def SOI_def EOI_def APP0_def DQT_def DHT_def SOS_def)

text \<open>
  Claim C3. The segment list below is what \<open>parse_jpeg\<close> returns for a file with an
  application segment, a quantization table, a frame header, a Huffman table, a scan
  header and the end-of-image marker: the last entry is \<open>(EOI, b"")\<close>. The claim says
  that nothing derived from that entry is written between the segments.
  \<open>rebuild_jpeg\<close> writes the bytes 0xFF, 0xD9, 0x00, 0x02 between the Huffman table and
  the scan header: the marker 0xD9 is below \<open>SOS\<close> = 0xDA and is not in the list of
  excluded markers, so the loop for the other markers before the scan writes it as a
  segment.
\<close>

theorem rebuild_jpeg_writes_eoi_segment:
  "(case rebuild_jpeg
           [(224, [74, 70]), (219, 0 # replicate 64 1), (192, [8]), (196, [0]), (218, [1]), (217, [])]
           192 [8] (Some [1]) [(0, replicate 8 (replicate 8 1))] [18, 52] ''out.jpg'' Map.empty
    of (err, fs) \<Rightarrow> (err, fs ''out.jpg'')) =
   (None, Some ([255, 216] @ [255, 224, 0, 4, 74, 70] @ [255, 219, 0, 67, 0] @ replicate 64 1
                @ [255, 192, 0, 3, 8] @ [255, 196, 0, 3, 0] @ [255, 217, 0, 2]
                @ [255, 218, 0, 3, 1] @ [18, 52] @ [255, 217]))"
  unfolding rebuild_jpeg_def rebuild_chunks_example by simp

section \<open>Rounding to binary64\<close>

lemma bit_length_pos_eq: "0 < n \<Longrightarrow> bit_length n = 1 + bit_length (n div 2)"
  by (subst bit_length.simps) simp

lemma bit_length_0 [simp]: "bit_length 0 = 0"
  by (subst bit_length.simps) simp

lemma bit_length_bounds:
  "0 < n \<Longrightarrow> 0 < bit_length n \<and> 2 ^ nat (bit_length n - 1) \<le> n \<and> n < 2 ^ nat (bit_length n)"
proof (induction n rule: bit_length.induct)
  case (1 n)
  show ?case
  proof (cases "n div 2 = 0")
    case True
    with "1.prems" have n: "n = 1" by (simp add: div_eq_0_iff)
    have "bit_length 1 = 1" by (subst bit_length.simps) simp
    with n show ?thesis by simp
  next
    case False
    with "1.prems" have pos: "0 < n div 2" by (simp add: div_eq_0_iff)
    from "1.prems" have "\<bar>n\<bar> div 2 = n div 2" by simp
    with "1.IH" "1.prems" pos
    have ih: "0 < bit_length (n div 2)" "2 ^ nat (bit_length (n div 2) - 1) \<le> n div 2"
      "n div 2 < 2 ^ nat (bit_length (n div 2))" by simp_all
    let ?b = "bit_length (n div 2)"
    have bl: "bit_length n = 1 + ?b" by (rule bit_length_pos_eq [OF "1.prems"])
    have e1: "nat (1 + ?b - 1) = Suc (nat (?b - 1))" using ih(1) by simp
    have e2: "nat (1 + ?b) = Suc (nat ?b)" using ih(1) by simp
    have "2 * 2 ^ nat (?b - 1) \<le> 2 * (n div 2)" using ih(2) by simp
    also have "\<dots> \<le> n" by simp
    finally have lo: "2 ^ nat (bit_length n - 1) \<le> n" unfolding bl e1 by simp
    have "n div 2 + 1 \<le> 2 ^ nat ?b" using ih(3) by simp
    then have "2 * (n div 2) + 2 \<le> 2 * 2 ^ nat ?b" by simp
    moreover have "n < 2 * (n div 2) + 2" by linarith
    ultimately have hi: "n < 2 ^ nat (bit_length n)" unfolding bl e2 by simp
    from lo hi ih(1) bl show ?thesis by simp
  qed
qed

lemma bit_length_powi:
  assumes "0 < n"
  shows "(2::rat) powi (bit_length n - 1) \<le> of_int n" "(of_int n :: rat) < 2 powi bit_length n"
proof -
  from bit_length_bounds [OF assms]
  have b: "0 < bit_length n" and lo: "2 ^ nat (bit_length n - 1) \<le> n" and hi: "n < 2 ^ nat (bit_length n)"
    by simp_all
  have "(2::rat) powi (bit_length n - 1) = of_int (2 ^ nat (bit_length n - 1))"
    using b by (simp add: power_int_nonneg_exp)
  also have "\<dots> \<le> of_int n" using lo by (simp only: of_int_le_iff)
  finally show "(2::rat) powi (bit_length n - 1) \<le> of_int n" .
  have "(of_int n :: rat) < of_int (2 ^ nat (bit_length n))" using hi by (simp only: of_int_less_iff)
  also have "\<dots> = 2 powi bit_length n" using b by (simp add: power_int_nonneg_exp)
  finally show "(of_int n :: rat) < 2 powi bit_length n" .
qed

lemma powi2_less_cancel:
  assumes "(2::rat) powi a < 2 powi b"
  shows "a < b"
proof (rule ccontr)
  assume "\<not> a < b"
  then have "b \<le> a" by simp
  from power_int_increasing [OF this, of "2::rat"] have "(2::rat) powi b \<le> 2 powi a" by simp
  with assms show False by simp
qed

lemma ilog2_bounds:
  assumes "0 < x"
  shows "2 powi ilog2 x \<le> x \<and> x < 2 powi (ilog2 x + 1)"
proof -
  obtain n d where q: "quotient_of x = (n, d)" by (cases "quotient_of x")
  have d: "0 < d" using quotient_of_denom_pos [OF q] .
  have x: "x = of_int n / of_int d" using quotient_of_div [OF q] .
  have n: "0 < n" using assms d unfolding x by (simp add: zero_less_divide_iff)
  let ?k = "bit_length n - bit_length d"
  note bn = bit_length_powi [OF n] and bd = bit_length_powi [OF d]
  have dpos: "(0::rat) < of_int d" using d by simp
  have npos: "(0::rat) \<le> of_int n" using n by simp
  have dle: "(of_int d :: rat) \<le> 2 powi bit_length d" using bd(2) by simp
  have "x < 2 powi bit_length n / 2 powi (bit_length d - 1)"
    unfolding x using n bn(2) bd(1) by (intro frac_less) simp_all
  also have "\<dots> = 2 powi (?k + 1)"
    by (simp add: power_int_diff [symmetric] algebra_simps)
  finally have hi: "x < 2 powi (?k + 1)" .
  have "(2::rat) powi (?k - 1) = 2 powi (bit_length n - 1) / 2 powi bit_length d"
    by (simp add: power_int_diff [symmetric] algebra_simps)
  also have "\<dots> \<le> x"
    unfolding x using bn(1) dle dpos npos by (intro frac_le)
  finally have lo: "2 powi (?k - 1) \<le> x" .
  show ?thesis
  proof (cases "2 powi ?k \<le> x")
    case True
    then have "ilog2 x = ?k" by (simp add: ilog2_def q)
    with True hi show ?thesis by simp
  next
    case False
    then have "ilog2 x = ?k - 1" by (simp add: ilog2_def q)
    with False lo show ?thesis by simp
  qed
qed

lemma ilog2_unique:
  assumes "2 powi e \<le> x" "x < 2 powi (e + 1)"
  shows "ilog2 x = e"
proof -
  have pos: "0 < x" using assms(1) by (rule less_le_trans [rotated]) simp
  from ilog2_bounds [OF pos] have b: "2 powi ilog2 x \<le> x" "x < 2 powi (ilog2 x + 1)" by simp_all
  have "(2::rat) powi e < 2 powi (ilog2 x + 1)" using assms(1) b(2) by simp
  then have 1: "e < ilog2 x + 1" by (rule powi2_less_cancel)
  have "(2::rat) powi ilog2 x < 2 powi (e + 1)" using assms(2) b(1) by simp
  then have 2: "ilog2 x < e + 1" by (rule powi2_less_cancel)
  from 1 2 show ?thesis by simp
qed

lemma powi2_add: "(2::rat) powi a * 2 powi b = 2 powi (a + b)"
  by (simp add: power_int_add)

lemma powi2_cancel: "(2::rat) powi a * 2 powi (- a) = 1"
  by (simp add: powi2_add)

lemma rne_of_int [simp]: "rne (of_int z) = z"
  by (simp add: rne_def)

lemma rne_error: "\<bar>of_int (rne y) - y\<bar> \<le> 1 / 2"
proof -
  have "of_int \<lfloor>y\<rfloor> \<le> y" "y < of_int \<lfloor>y\<rfloor> + 1" by linarith+
  then show ?thesis by (auto simp: rne_def Let_def abs_le_iff)
qed

lemma fl_0 [simp]: "fl 0 = 0"
  by (simp add: fl_def)

lemma fl_minus: "fl (- x) = - fl x"
  by (simp add: fl_def Let_def)

lemma fl_pos_eq:
  assumes "2 powi e \<le> x" "x < 2 powi (e + 1)"
  shows "fl x = of_int (rne (x * 2 powi (52 - e))) * 2 powi (e - 52)"
proof -
  have pos: "0 < x" using assms(1) by (rule less_le_trans [rotated]) simp
  then show ?thesis by (simp add: fl_def Let_def ilog2_unique [OF assms])
qed

lemma fl_exact_pos:
  assumes "0 < M" "M < 2 ^ 53"
  shows "fl (of_int M * 2 powi E) = of_int M * 2 powi E"
proof -
  let ?x = "of_int M * 2 powi E :: rat"
  have pos: "0 < ?x" using assms(1) by simp
  define e where "e = ilog2 ?x"
  from ilog2_bounds [OF pos] have b: "2 powi e \<le> ?x" "?x < 2 powi (e + 1)" by (simp_all add: e_def)
  have "(of_int M :: rat) < of_int (2 ^ 53)" using assms(2) by (simp only: of_int_less_iff)
  then have "(of_int M :: rat) < 2 powi 53" by simp
  then have "?x < 2 powi 53 * 2 powi E" by simp
  also have "\<dots> = 2 powi (53 + E)" by (simp only: powi2_add)
  finally have "(2::rat) powi e < 2 powi (53 + E)" using b(1) by simp
  then have "e < 53 + E" by (rule powi2_less_cancel)
  then have t: "0 \<le> 52 - e + E" by simp
  have "?x * 2 powi (52 - e) = of_int M * (2 powi E * 2 powi (52 - e))"
    by (simp only: mult.assoc)
  also have "\<dots> = of_int M * 2 powi (52 - e + E)"
    by (simp only: powi2_add add.commute)
  also have "\<dots> = of_int (M * 2 ^ nat (52 - e + E))"
    using t by (simp add: power_int_nonneg_exp)
  finally have "rne (?x * 2 powi (52 - e)) = M * 2 ^ nat (52 - e + E)"
    by (simp only: rne_of_int)
  then have "fl ?x = of_int (M * 2 ^ nat (52 - e + E)) * 2 powi (e - 52)"
    by (simp only: fl_pos_eq [OF b])
  also have "\<dots> = of_int M * (2 powi (52 - e + E) * 2 powi (e - 52))"
    using t by (simp add: power_int_nonneg_exp)
  also have "2 powi (52 - e + E) * 2 powi (e - 52) = (2::rat) powi E"
    by (simp add: powi2_add)
  finally show ?thesis .
qed

lemma fl_exact:
  assumes "\<bar>M\<bar> < 2 ^ 53"
  shows "fl (of_int M * 2 powi E) = of_int M * 2 powi E"
proof (cases "M = 0")
  case True
  then show ?thesis by simp
next
  case False
  show ?thesis
  proof (cases "0 < M")
    case True
    with assms show ?thesis by (intro fl_exact_pos) simp_all
  next
    case neg: False
    with False assms have "0 < - M" "- M < 2 ^ 53" by simp_all
    from fl_exact_pos [OF this, of E] fl_minus [of "of_int (- M) * 2 powi E"]
    show ?thesis by simp
  qed
qed

lemma fl_of_int: "\<bar>k\<bar> < 2 ^ 53 \<Longrightarrow> fl (of_int k) = of_int k"
  using fl_exact [of k 0] by simp

lemma fl_half_int: "\<bar>k\<bar> < 2 ^ 53 \<Longrightarrow> fl (of_int k / 2) = of_int k / 2"
  using fl_exact [of k "-1"] by (simp add: power_int_minus field_simps)

lemma fl_error:
  assumes "0 < x"
  shows "\<bar>fl x - x\<bar> \<le> x * 2 powi (- 53)"
proof -
  define e where "e = ilog2 x"
  from ilog2_bounds [OF assms] have b: "2 powi e \<le> x" "x < 2 powi (e + 1)" by (simp_all add: e_def)
  let ?y = "x * 2 powi (52 - e)"
  have s: "(2::rat) powi (52 - e) * 2 powi (e - 52) = 1"
    by (simp add: powi2_add)
  have "fl x - x = (of_int (rne ?y) - ?y) * 2 powi (e - 52)"
    using s by (simp add: fl_pos_eq [OF b] algebra_simps)
  then have "\<bar>fl x - x\<bar> = \<bar>of_int (rne ?y) - ?y\<bar> * 2 powi (e - 52)"
    by (simp add: abs_mult)
  also have "\<dots> \<le> 1 / 2 * 2 powi (e - 52)"
    by (intro mult_right_mono rne_error) simp
  also have "\<dots> = 2 powi (- 1) * 2 powi (e - 52)"
    by (simp add: power_int_minus)
  also have "\<dots> = 2 powi e * 2 powi (- 53)"
  proof -
    have "- 1 + (e - 52) = e + (- 53)" by simp
    then show ?thesis by (simp only: powi2_add)
  qed
  also have "\<dots> \<le> x * 2 powi (- 53)"
    using b(1) by (intro mult_right_mono) simp_all
  finally show ?thesis .
qed

section \<open>Quality scaling at 50, 100 and 1\<close>

lemma map_e_Inr: "(\<And>x. x \<in> set xs \<Longrightarrow> f x = Inr (g x)) \<Longrightarrow> map_e f xs = Inr (map g xs)"
  by (induction xs) (simp_all add: bind_e_def)

lemma scale_table_unfold:
  "scale_table table quality =
     bind_e (scale_factor (clamp_quality quality)) (\<lambda>factor. map_e (map_e (scale_entry factor)) table)"
proof -
  have "(if (if quality < 1 then 1 else quality) > 100 then 100
         else (if quality < 1 then 1 else quality)) = clamp_quality quality"
    by (simp add: clamp_quality_def)
  then show ?thesis
    by (simp add: scale_table_def Let_def scale_factor_def scale_entry_def [abs_def])
qed

lemma scale_table_entries:
  assumes "scale_factor (clamp_quality quality) = Inr factor"
    and "\<And>row v. row \<in> set table \<Longrightarrow> v \<in> set row \<Longrightarrow> scale_entry factor v = Inr (g v)"
  shows "scale_table table quality = Inr (map (map g) table)"
proof -
  have "map_e (map_e (scale_entry factor)) table = Inr (map (map g) table)"
    by (intro map_e_Inr) (simp add: assms(2))
  then show ?thesis by (simp add: scale_table_unfold assms(1) bind_e_def)
qed

lemma half_int_value:
  fixes k :: int
  assumes "0 \<le> k" "k < 2 ^ 52"
  defines "y \<equiv> (of_int (2 * k + 1) :: rat) / 2"
  shows "fl y = y" "\<lfloor>y\<rfloor> = k" "0 \<le> y"
proof -
  show "fl y = y" unfolding y_def using assms(1,2) by (intro fl_half_int) simp
  show "\<lfloor>y\<rfloor> = k"
    unfolding y_def using floor_divide_of_int_eq [of "2 * k + 1" 2, where ?'a = rat] by simp
  show "0 \<le> y" unfolding y_def using assms(1) by simp
qed

lemma scale_entry_int_half:
  assumes "0 \<le> k" "k < 2 ^ 52"
  shows "bind_e (py_truediv (PyInt (100 * k + 50)) (PyInt 100)) (\<lambda>x. Inr (py_int x)) = Inr k"
proof -
  define y :: rat where "y = of_int (2 * k + 1) / 2"
  have e1: "(of_int (100 * k + 50) :: rat) / of_int 100 = y"
    unfolding y_def by (simp add: field_simps)
  note h = half_int_value [OF assms, folded y_def]
  show ?thesis
    unfolding py_truediv.simps e1 h(1) by (simp add: bind_e_def h(2,3))
qed

lemma scale_entry_50:
  assumes "1 \<le> v" "v \<le> 255"
  shows "scale_entry (PyInt 100) v = Inr v"
proof -
  have "bind_e (py_truediv (PyInt (100 * v + 50)) (PyInt 100)) (\<lambda>x. Inr (py_int x)) = Inr v"
    using assms by (intro scale_entry_int_half) simp_all
  then show ?thesis using assms
    by (auto simp: scale_entry_def bind_e_def mult.commute split: sum.splits)
qed

lemma scale_entry_100: "scale_entry (PyInt 0) v = Inr 1"
proof -
  have "bind_e (py_truediv (PyInt (100 * 0 + 50)) (PyInt 100)) (\<lambda>x. Inr (py_int x)) = Inr 0"
    by (intro scale_entry_int_half) simp_all
  then show ?thesis
    by (auto simp: scale_entry_def bind_e_def split: sum.splits)
qed

lemma scale_entry_1:
  assumes "1 \<le> v" "v \<le> 255"
  shows "scale_entry (PyFloat 5000) v = Inr (min 255 (50 * v))"
proof -
  define y :: rat where "y = of_int (2 * (50 * v) + 1) / 2"
  have k: "0 \<le> 50 * v" "50 * v < 2 ^ 52" using assms by simp_all
  note h = half_int_value [OF k, folded y_def]
  have a: "fl (of_int v) = of_int v" using assms by (intro fl_of_int) simp
  have "fl (of_int (v * 5000)) = of_int (v * 5000)" using assms by (intro fl_of_int) simp
  then have b: "fl (of_int v * 5000) = of_int v * 5000" by simp
  have "fl (of_int 50) = of_int 50" by (intro fl_of_int) simp
  then have c: "fl (of_int 50) = 50" by simp
  have "fl (of_int (v * 5000 + 50)) = of_int (v * 5000 + 50)" using assms by (intro fl_of_int) simp
  then have d: "fl (of_int v * 5000 + 50) = of_int v * 5000 + 50" by simp
  have "fl (of_int 100) = of_int 100" by (intro fl_of_int) simp
  then have e: "fl (of_int 100) = 100" by simp
  have f: "(of_int v * 5000 + 50 :: rat) / 100 = y"
    unfolding y_def by (simp add: field_simps)
  have "scale_entry (PyFloat 5000) v = Inr (max 1 (min (50 * v) 255))"
    unfolding scale_entry_def py_mul.simps py_add.simps py_truediv.simps to_float.simps
      a b c d e f h(1)
    by (simp add: bind_e_def h(2,3))
  then show ?thesis using assms by (simp add: min.commute)
qed

lemma scale_factor_50: "scale_factor (clamp_quality 50) = Inr (PyInt 100)"
  by (simp add: scale_factor_def clamp_quality_def)

lemma scale_factor_100: "scale_factor (clamp_quality 100) = Inr (PyInt 0)"
  by (simp add: scale_factor_def clamp_quality_def)

lemma scale_factor_1: "scale_factor (clamp_quality 1) = Inr (PyFloat 5000)"
proof -
  have "fl (of_int 5000) = of_int 5000" by (intro fl_of_int) simp
  then have "fl 5000 = 5000" by simp
  then show ?thesis by (simp add: scale_factor_def clamp_quality_def)
qed

text \<open>
  Claim C5, as amended. For every table whose entries lie in 1..255 (8 rows of 8 entries
  in particular): at quality 50 \<open>scale_table\<close> returns the table unchanged, at quality
  100 a table of ones, and at quality 1 each entry \<open>v\<close> becomes \<open>min(255, 50 * v)\<close>,
  which is 255 for every entry from 6 up and 50, 100, 150, 200, 250 for the entries 1
  to 5.
\<close>

theorem scale_table_boundaries:
  assumes "\<forall>row \<in> set table. \<forall>v \<in> set row. 1 \<le> v \<and> v \<le> 255"
  shows "scale_table table 50 = Inr table \<and>
         scale_table table 100 = Inr (map (map (\<lambda>v. 1)) table) \<and>
         scale_table table 1 = Inr (map (map (\<lambda>v. min 255 (50 * v))) table)"
proof (intro conjI)
  have "scale_table table 50 = Inr (map (map (\<lambda>v. v)) table)"
    using assms by (intro scale_table_entries [OF scale_factor_50] scale_entry_50) auto
  then show "scale_table table 50 = Inr table" by simp
  show "scale_table table 100 = Inr (map (map (\<lambda>v. 1)) table)"
    by (intro scale_table_entries [OF scale_factor_100] scale_entry_100)
  show "scale_table table 1 = Inr (map (map (\<lambda>v. min 255 (50 * v))) table)"
    using assms by (intro scale_table_entries [OF scale_factor_1] scale_entry_1) auto
qed

theorem scale_table_boundaries_witness:
  "scale_table (replicate 8 [1, 2, 5, 6, 16, 100, 200, 255]) 50
     = Inr (replicate 8 [1, 2, 5, 6, 16, 100, 200, 255]) \<and>
   scale_table (replicate 8 [1, 2, 5, 6, 16, 100, 200, 255]) 100
     = Inr (replicate 8 [1, 1, 1, 1, 1, 1, 1, 1]) \<and>
   scale_table (replicate 8 [1, 2, 5, 6, 16, 100, 200, 255]) 1
     = Inr (replicate 8 [50, 100, 250, 255, 255, 255, 255, 255])"
  using scale_table_boundaries [of "replicate 8 [1, 2, 5, 6, 16, 100, 200, 255]"] by simp

text \<open>
  The claim as stated fails at quality 1 on the table whose entries are all 1: every
  entry of the result is 50, not 255.
\<close>

theorem scale_table_quality_1_counterexample:
  "scale_table (replicate 8 (replicate 8 1)) 1 = Inr (replicate 8 (replicate 8 50)) \<and>
   scale_table (replicate 8 (replicate 8 1)) 1 \<noteq> Inr (replicate 8 (replicate 8 255))"
proof -
  have "scale_table (replicate 8 (replicate 8 1)) 1
      = Inr (map (map (\<lambda>v. min 255 (50 * v))) (replicate 8 (replicate 8 1)))"
    by (intro scale_table_entries [OF scale_factor_1] scale_entry_1) auto
  then show ?thesis by simp
qed

section \<open>The two table scalers agree\<close>

lemma map_e_map: "map_e f (map g xs) = map_e (\<lambda>x. f (g x)) xs"
  by (induction xs) simp_all

lemma map_e_cong: "(\<And>x. x \<in> set xs \<Longrightarrow> f x = g x) \<Longrightarrow> map_e f xs = map_e g xs"
  by (induction xs) simp_all

lemma map_e_rows:
  assumes "is_8x8 mat"
  shows "map_e (\<lambda>i. map_e (\<lambda>j. E (mat ! i ! j)) [0..<8]) [0..<8] = map_e (map_e E) mat"
proof -
  have "map_e (map_e E) mat
      = map_e (map_e E) (map (\<lambda>i. map (\<lambda>j. mat ! i ! j) [0..<8]) [0..<8])"
    using is_8x8_rows [OF assms] by simp
  also have "\<dots> = map_e (\<lambda>i. map_e (\<lambda>j. E (mat ! i ! j)) [0..<8]) [0..<8]"
    by (simp only: map_e_map)
  finally show ?thesis by simp
qed

lemma inverse_zigzag_8x8:
  assumes "inverse_zigzag flat = Inr mat"
  shows "is_8x8 mat"
proof (cases "length flat = 64")
  case True
  from assms inverse_zigzag_eq [OF True] show ?thesis by (auto simp: is_8x8_rows_of)
next
  case False
  with assms show ?thesis by (simp add: inverse_zigzag_def)
qed

lemma clamp_quality_id: "1 \<le> q \<Longrightarrow> q \<le> 100 \<Longrightarrow> clamp_quality q = q"
  by (simp add: clamp_quality_def)

lemma build_scaled_step:
  assumes "1 \<le> q" "q \<le> 100"
  shows "build_scaled_loop ((tid, flat) # rest) q scaled =
     bind_e (inverse_zigzag flat) (\<lambda>mat.
     bind_e (scale_table mat q) (\<lambda>new_mat.
     build_scaled_loop rest q (dict_set scaled tid new_mat)))"
proof (cases "inverse_zigzag flat")
  case (Inl e)
  then show ?thesis by (simp add: bind_e_def)
next
  case (Inr mat)
  note m = inverse_zigzag_8x8 [OF Inr]
  have e: "(\<lambda>v. bind_e (py_truediv (py_add (py_mul (PyInt v) factor) (PyInt 50)) (PyInt 100))
                 (\<lambda>x. Inr (max 1 (min 255 (py_int x))))) = scale_entry factor" for factor
    by (simp add: scale_entry_def [abs_def] min.commute)
  have r: "map_e (\<lambda>i. map_e (\<lambda>j. scale_entry factor (mat ! i ! j)) [0..<8]) [0..<8]
      = map_e (map_e (scale_entry factor)) mat" for factor
    by (rule map_e_rows [OF m])
  have "build_scaled_loop ((tid, flat) # rest) q scaled =
     bind_e (scale_factor q) (\<lambda>factor.
     bind_e (map_e (\<lambda>i. map_e (\<lambda>j. scale_entry factor (mat ! i ! j)) [0..<8]) [0..<8])
       (\<lambda>new_mat. build_scaled_loop rest q (dict_set scaled tid new_mat)))"
    unfolding build_scaled_loop.simps Inr scale_factor_def [symmetric]
    by (simp add: bind_e_def e [symmetric])
  also have "\<dots> = bind_e (scale_table mat q) (\<lambda>new_mat.
     build_scaled_loop rest q (dict_set scaled tid new_mat))"
    unfolding r scale_table_unfold clamp_quality_id [OF assms]
    by (cases "scale_factor q") (simp_all add: bind_e_def)
  finally show ?thesis by (simp add: Inr bind_e_def)
qed

lemma dict_set_append: "k \<notin> fst ` set d \<Longrightarrow> dict_set d k v = d @ [(k, v)]"
  by (induction d) auto

lemma scaled_entry_fst: "scaled_entry q (tid, flat) = Inr y \<Longrightarrow> fst y = tid"
  by (auto simp: scaled_entry_def bind_e_def split: sum.splits)

lemma build_scaled_loop_eq:
  assumes "1 \<le> q" "q \<le> 100"
  shows "distinct (map fst rest) \<Longrightarrow> fst ` set scaled \<inter> fst ` set rest = {} \<Longrightarrow>
     build_scaled_loop rest q scaled =
       bind_e (map_e (scaled_entry q) rest) (\<lambda>new. Inr (scaled @ new))"
proof (induction rest arbitrary: scaled)
  case Nil
  then show ?case by (simp add: bind_e_def)
next
  case (Cons p rest)
  obtain tid flat where p: "p = (tid, flat)" by (cases p)
  from Cons.prems p have new: "tid \<notin> fst ` set scaled" and d: "distinct (map fst rest)"
    and nin: "tid \<notin> fst ` set rest" and disj: "fst ` set scaled \<inter> fst ` set rest = {}"
    by auto
  have ih: "build_scaled_loop rest q (scaled @ [(tid, m)]) =
       bind_e (map_e (scaled_entry q) rest) (\<lambda>new. Inr ((scaled @ [(tid, m)]) @ new))" for m
    using nin disj by (intro Cons.IH [OF d]) auto
  show ?case
    unfolding p build_scaled_step [OF assms] dict_set_append [OF new] ih
    by (auto simp: bind_e_def scaled_entry_def split: sum.splits)
qed

text \<open>
  Claim C10. For a quality in 1..100, \<open>build_scaled_qtables\<close> returns, for each table of
  the parsed dict and in the dict's order, exactly what \<open>scale_table\<close> returns on the
  matrix \<open>inverse_zigzag\<close> makes of that table; the two also raise the same exception when
  a table does not have 64 entries. The keys of a dict are distinct.
\<close>

theorem scalers_agree:
  assumes "1 \<le> quality" "quality \<le> 100" "distinct (map fst orig)"
  shows "build_scaled_qtables orig quality =
     map_e (\<lambda>(tid, flat).
        bind_e (inverse_zigzag flat) (\<lambda>mat.
        bind_e (scale_table mat quality) (\<lambda>m. Inr (tid, m)))) orig"
proof -
  have "build_scaled_qtables orig quality =
      bind_e (map_e (scaled_entry quality) orig) (\<lambda>new. Inr ([] @ new))"
    unfolding build_scaled_qtables_def
    using assms(3) by (intro build_scaled_loop_eq [OF assms(1,2)]) simp_all
  then show ?thesis
    by (simp add: bind_e_def scaled_entry_def split: sum.splits)
qed

theorem scalers_agree_witness:
  "build_scaled_qtables [(0, map int ZIGZAG_ORDER), (1, replicate 64 16)] 35 =
     map_e (\<lambda>(tid, flat).
        bind_e (inverse_zigzag flat) (\<lambda>mat.
        bind_e (scale_table mat 35) (\<lambda>m. Inr (tid, m))))
       [(0, map int ZIGZAG_ORDER), (1, replicate 64 16)]"
  using scalers_agree [of 35 "[(0, map int ZIGZAG_ORDER), (1, replicate 64 16)]"] by simp

section \<open>The scaling formula\<close>

lemma rne_mono:
  assumes "y1 \<le> y2"
  shows "rne y1 \<le> rne y2"
proof (cases "\<lfloor>y1\<rfloor> = \<lfloor>y2\<rfloor>")
  case True
  with assms show ?thesis by (auto simp: rne_def Let_def)
next
  case False
  with assms have "\<lfloor>y1\<rfloor> < \<lfloor>y2\<rfloor>" using floor_mono [OF assms] by simp
  then have "\<lfloor>y1\<rfloor> + 1 \<le> \<lfloor>y2\<rfloor>" by simp
  moreover have "rne y1 \<le> \<lfloor>y1\<rfloor> + 1" by (simp add: rne_def Let_def)
  moreover have "\<lfloor>y2\<rfloor> \<le> rne y2" by (simp add: rne_def Let_def)
  ultimately show ?thesis by linarith
qed

lemma rne_ge_int: "of_int z \<le> y \<Longrightarrow> z \<le> rne y"
  using rne_mono [of "of_int z" y] by simp

lemma rne_le_int: "y \<le> of_int z \<Longrightarrow> rne y \<le> z"
  using rne_mono [of y "of_int z"] by simp

lemma powi2_split: "(2::rat) powi a = 2 powi b * 2 powi (a - b)"
  by (simp add: powi2_add)

lemma fl_pos_bounds:
  assumes "2 powi e \<le> x" "x < 2 powi (e + 1)"
  shows "2 powi e \<le> fl x" "fl x \<le> 2 powi (e + 1)"
proof -
  define m where "m = rne (x * 2 powi (52 - e))"
  have f: "fl x = of_int m * 2 powi (e - 52)"
    unfolding m_def by (rule fl_pos_eq [OF assms])
  have "(2::rat) powi 52 = 2 powi e * 2 powi (52 - e)" by (rule powi2_split)
  also have "\<dots> \<le> x * 2 powi (52 - e)" using assms(1) by (intro mult_right_mono) simp_all
  finally have "of_int (2 ^ 52) \<le> x * 2 powi (52 - e)" by simp
  then have "2 ^ 52 \<le> m" unfolding m_def by (rule rne_ge_int)
  then have "(of_int (2 ^ 52) :: rat) \<le> of_int m" by (simp only: of_int_le_iff)
  then have lo: "(2::rat) powi 52 \<le> of_int m" by simp
  have "(2::rat) powi e = 2 powi 52 * 2 powi (e - 52)" by (rule powi2_split)
  also have "\<dots> \<le> of_int m * 2 powi (e - 52)" using lo by (intro mult_right_mono) simp_all
  finally show "2 powi e \<le> fl x" unfolding f .
  have "x * 2 powi (52 - e) \<le> 2 powi (e + 1) * 2 powi (52 - e)"
    using assms(2) by (intro mult_right_mono) simp_all
  also have "\<dots> = 2 powi 53" by (simp add: powi2_add)
  finally have "x * 2 powi (52 - e) \<le> of_int (2 ^ 53)" by simp
  then have "m \<le> 2 ^ 53" unfolding m_def by (rule rne_le_int)
  then have "(of_int m :: rat) \<le> of_int (2 ^ 53)" by (simp only: of_int_le_iff)
  then have hi: "(of_int m :: rat) \<le> 2 powi 53" by simp
  have "of_int m * 2 powi (e - 52) \<le> (2::rat) powi 53 * 2 powi (e - 52)"
    using hi by (intro mult_right_mono) simp_all
  also have "\<dots> = 2 powi (e + 1)" using powi2_split [of "e + 1" 53] by simp
  finally show "fl x \<le> 2 powi (e + 1)" unfolding f .
qed

lemma fl_mono_pos:
  assumes "0 < x" "x \<le> y"
  shows "fl x \<le> fl y"
proof -
  have ypos: "0 < y" using assms by simp
  define ex where "ex = ilog2 x"
  define ey where "ey = ilog2 y"
  from ilog2_bounds [OF assms(1)] have bx: "2 powi ex \<le> x" "x < 2 powi (ex + 1)"
    by (simp_all add: ex_def)
  from ilog2_bounds [OF ypos] have by': "2 powi ey \<le> y" "y < 2 powi (ey + 1)"
    by (simp_all add: ey_def)
  have "(2::rat) powi ex < 2 powi (ey + 1)" using bx(1) assms(2) by'(2) by simp
  then have le: "ex \<le> ey" using powi2_less_cancel by fastforce
  show ?thesis
  proof (cases "ex = ey")
    case True
    have "x * 2 powi (52 - ey) \<le> y * 2 powi (52 - ey)"
      using assms(2) by (intro mult_right_mono) simp_all
    then have "rne (x * 2 powi (52 - ey)) \<le> rne (y * 2 powi (52 - ey))" by (rule rne_mono)
    then have "(of_int (rne (x * 2 powi (52 - ey))) :: rat) \<le> of_int (rne (y * 2 powi (52 - ey)))"
      by (simp only: of_int_le_iff)
    then have "of_int (rne (x * 2 powi (52 - ey))) * 2 powi (ey - 52)
        \<le> (of_int (rne (y * 2 powi (52 - ey))) :: rat) * 2 powi (ey - 52)"
      by (intro mult_right_mono) simp_all
    then show ?thesis
      unfolding fl_pos_eq [OF bx] fl_pos_eq [OF by'] True .
  next
    case False
    with le have "ex + 1 \<le> ey" by simp
    then have "(2::rat) powi (ex + 1) \<le> 2 powi ey" by (intro power_int_increasing) simp_all
    with fl_pos_bounds(2) [OF bx] fl_pos_bounds(1) [OF by'] show ?thesis by linarith
  qed
qed

lemma fl_50: "fl (of_int 50) = 50"
  using fl_of_int [of 50] by simp

lemma fl_100: "fl (of_int 100) = 100"
  using fl_of_int [of 100] by simp

lemma scale_entry_float:
  assumes "\<bar>v\<bar> < 2 ^ 53"
  shows "scale_entry (PyFloat f) v = Inr (max 1 (min (py_int (PyFloat (chain f v))) 255))"
  unfolding scale_entry_def py_mul.simps py_add.simps py_truediv.simps to_float.simps
    fl_of_int [OF assms] fl_50 fl_100 chain_def
  by (simp add: bind_e_def)

lemma abs_diff_bounds: "\<bar>a - b\<bar> \<le> c \<Longrightarrow> b - c \<le> a \<and> a \<le> b + (c::rat)"
  by linarith

lemma fl_error_bounds:
  assumes "0 < x"
  shows "x - x * 2 powi (- 53) \<le> fl x" "fl x \<le> x + x * 2 powi (- 53)"
  using abs_diff_bounds [OF fl_error [OF assms]] by blast+

lemma chain_error:
  fixes q v :: int
  assumes q: "1 \<le> q" "q \<le> 49" and v: "1 \<le> v" "v \<le> 255"
  defines "a \<equiv> 5000 / of_int q :: rat"
  defines "x \<equiv> (of_int v * a + 50) / 100"
  shows "x - 51010 * 2 powi (- 53) \<le> chain (fl a) v" "chain (fl a) v \<le> x + 51010 * 2 powi (- 53)"
proof -
  define E :: rat where "E = 2 powi (- 53)"
  have E: "E = 1 / 9007199254740992" by (simp add: E_def power_int_minus)
  have Epos: "0 < E" by (simp add: E)
  define w :: rat where "w = of_int v"
  have w: "1 \<le> w" "w \<le> 255" using v by (simp_all add: w_def)
  have qr: "(1::rat) \<le> of_int q" using q by simp
  have apos: "0 < a" using qr by (simp add: a_def)
  have ale: "a \<le> 5000" using qr by (simp add: a_def field_simps)
  define f where "f = fl a"
  have f1: "a - a * E \<le> f" "f \<le> a + a * E"
    using fl_error_bounds [OF apos] by (simp_all add: f_def E_def)
  have aE: "a * E \<le> 5000 * E" using ale Epos by (intro mult_right_mono) simp_all
  have aE0: "0 \<le> a * E" using apos Epos by simp
  have aE1: "a * E < a" using apos Epos by (simp add: E)
  have fpos: "0 < f" using f1(1) aE1 by linarith
  have fle: "f \<le> 5001" using f1(2) aE ale unfolding E by linarith
  define b where "b = w * f"
  have bpos: "0 < b" using w fpos by (simp add: b_def)
  have ble: "b \<le> 255 * 5001" unfolding b_def using w fle fpos by (intro mult_mono) simp_all
  have wa: "w * (a * E) \<le> 255 * (5000 * E)" using w aE aE0 ale Epos by (intro mult_mono) simp_all
  have b1: "w * a - 255 * (5000 * E) \<le> b" "b \<le> w * a + 255 * (5000 * E)"
  proof -
    have "w * (a - a * E) \<le> w * f" using f1(1) w by (intro mult_left_mono) simp_all
    then show "w * a - 255 * (5000 * E) \<le> b" using wa by (simp add: b_def algebra_simps)
    have "w * f \<le> w * (a + a * E)" using f1(2) w by (intro mult_left_mono) simp_all
    then show "b \<le> w * a + 255 * (5000 * E)" using wa by (simp add: b_def algebra_simps)
  qed
  define p where "p = fl b"
  have p1: "b - b * E \<le> p" "p \<le> b + b * E"
    using fl_error_bounds [OF bpos] by (simp_all add: p_def E_def)
  have bE: "b * E \<le> 255 * 5001 * E" using ble Epos by (intro mult_right_mono) simp_all
  have bE0: "0 \<le> b * E" using bpos Epos by simp
  have bE1: "b * E < b" using bpos Epos by (simp add: E)
  have ppos: "0 < p" using p1(1) bE1 by linarith
  define c where "c = p + 50"
  have cpos: "0 < c" using ppos by (simp add: c_def)
  have cle: "c \<le> 1275306" using p1(2) ble bE unfolding c_def E by linarith
  define s where "s = fl c"
  have s1: "c - c * E \<le> s" "s \<le> c + c * E"
    using fl_error_bounds [OF cpos] by (simp_all add: s_def E_def)
  have cE: "c * E \<le> 1275306 * E" using cle Epos by (intro mult_right_mono) simp_all
  have cE1: "c * E < c" using cpos Epos by (simp add: E)
  have spos: "0 < s" using s1(1) cE1 by linarith
  have sle: "s \<le> 1275307" using s1(2) cle cE unfolding E by linarith
  define g where "g = s / 100"
  have gpos: "0 < g" using spos by (simp add: g_def)
  have gle: "g \<le> 12754" using sle by (simp add: g_def)
  define d where "d = fl g"
  have d1: "g - g * E \<le> d" "d \<le> g + g * E"
    using fl_error_bounds [OF gpos] by (simp_all add: d_def E_def)
  have gE: "g * E \<le> 12754 * E" using gle Epos by (intro mult_right_mono) simp_all
  have x: "100 * x = w * a + 50" by (simp add: x_def w_def)
  have g: "100 * g = s" by (simp add: g_def)
  have d: "chain (fl a) v = d"
    by (simp add: chain_def d_def g_def s_def c_def p_def b_def w_def f_def)
  have lo: "x - 51010 * E \<le> d"
    using b1(1) p1(1) bE s1(1) cE d1(1) gE x g unfolding c_def E by linarith
  have hi: "d \<le> x + 51010 * E"
    using b1(2) p1(2) bE s1(2) cE d1(2) gE x g unfolding c_def E by linarith
  show "x - 51010 * 2 powi (- 53) \<le> chain (fl a) v"
    using lo unfolding d E_def .
  show "chain (fl a) v \<le> x + 51010 * 2 powi (- 53)"
    using hi unfolding d E_def .
qed

lemma floor_near:
  fixes N D :: int and d t :: rat
  assumes D: "0 < D" and r: "N mod D \<noteq> 0"
    and lo: "of_int N / of_int D - t \<le> d" and hi: "d \<le> of_int N / of_int D + t"
    and t: "t * of_int D < 1"
  shows "\<lfloor>d\<rfloor> = N div D"
proof -
  define k where "k = N div D"
  define m where "m = N mod D"
  have N: "N = k * D + m" by (simp add: k_def m_def)
  have m: "1 \<le> m" "m \<le> D - 1"
    using r D pos_mod_sign [OF D, of N] pos_mod_bound [OF D, of N] by (simp_all add: m_def)
  define Dr :: rat where "Dr = of_int D"
  define mr :: rat where "mr = of_int m"
  have Dr: "0 < Dr" using D by (simp add: Dr_def)
  have mr: "1 \<le> mr" "mr \<le> Dr - 1" using m by (simp_all add: mr_def Dr_def)
  have x: "of_int N / of_int D = of_int k + mr / Dr"
    using Dr by (simp add: N Dr_def mr_def field_simps)
  have t': "t < 1 / Dr" using t Dr by (simp add: Dr_def field_simps)
  have a: "1 / Dr \<le> mr / Dr" using mr(1) Dr by (simp add: divide_right_mono)
  have "mr / Dr \<le> (Dr - 1) / Dr" using mr(2) Dr by (simp add: divide_right_mono)
  also have "\<dots> = 1 - 1 / Dr" using Dr by (simp add: field_simps)
  finally have b: "mr / Dr \<le> 1 - 1 / Dr" .
  have "of_int k \<le> d" using lo a t' unfolding x by linarith
  moreover have "d < of_int k + 1" using hi b t' unfolding x by linarith
  ultimately show ?thesis unfolding k_def [symmetric] by (intro floor_unique)
qed

text \<open>
  True division of two ints followed by \<open>int()\<close> is floor division, for a dividend
  between 0 and 2^53.
\<close>

lemma floor_fl_div:
  fixes n D :: int
  assumes n: "0 < n" "n < 2 ^ 53" and D: "0 < D"
  shows "\<lfloor>fl (of_int n / of_int D)\<rfloor> = n div D" "0 \<le> fl (of_int n / of_int D)"
proof -
  define x :: rat where "x = of_int n / of_int D"
  have xpos: "0 < x" using n D by (simp add: x_def)
  note e = fl_error_bounds [OF xpos]
  have xE: "0 \<le> x * 2 powi (- 53)" using xpos by simp
  have "x * 2 powi (- 53) < x" using xpos by (simp add: power_int_minus)
  with e(1) xpos show "0 \<le> fl (of_int n / of_int D)" unfolding x_def [symmetric] by linarith
  show "\<lfloor>fl (of_int n / of_int D)\<rfloor> = n div D"
  proof (cases "n mod D = 0")
    case True
    then have nk: "n = (n div D) * D" by (simp add: mod_eq_0_iff_dvd)
    have "(of_int n :: rat) = of_int (n div D) * of_int D"
      by (subst nk) (simp only: of_int_mult)
    then have "x = of_int (n div D)" using D by (simp add: x_def)
    moreover have k0: "0 \<le> n div D" using n D by (simp add: pos_imp_zdiv_nonneg_iff)
    moreover have "n div D \<le> n"
    proof -
      have "(n div D) * 1 \<le> (n div D) * D" using k0 D by (intro mult_left_mono) simp_all
      then show ?thesis using nk by simp
    qed
    ultimately show ?thesis using n(2) fl_of_int [of "n div D"] unfolding x_def [symmetric] by simp
  next
    case False
    have "x * 2 powi (- 53) * of_int D = of_int n * 2 powi (- 53)"
      using D by (simp add: x_def)
    also have "\<dots> < of_int (2 ^ 53) * 2 powi (- 53)"
      using n(2) by (intro mult_strict_right_mono) (simp_all only: of_int_less_iff zero_less_power_int zero_less_numeral)
    also have "\<dots> = 1" by (simp add: power_int_minus)
    finally have t: "x * 2 powi (- 53) * of_int D < 1" .
    show ?thesis
      by (rule floor_near [OF D False e [unfolded x_def] t [unfolded x_def]])
  qed
qed

lemma scale_entry_int_factor:
  assumes q: "50 \<le> q" "q \<le> 100" and v: "1 \<le> v" "v \<le> 255"
  shows "scale_entry (PyInt (200 - q * 2)) v = Inr (trunc_entry q v)"
proof -
  define n where "n = v * (200 - q * 2) + 50"
  have F: "0 \<le> 200 - q * 2" "200 - q * 2 \<le> 100" using q by simp_all
  have "0 \<le> v * (200 - q * 2)" using v F by simp
  then have n0: "0 < n" by (simp add: n_def)
  have "v * (200 - q * 2) \<le> 255 * 100" using v F by (intro mult_mono) simp_all
  then have n1: "n < 2 ^ 53" by (simp add: n_def)
  note fd = floor_fl_div [OF n0 n1, of 100, simplified]
  have "(of_int v * spec_factor q + 50) / 100 = (of_int n :: rat) / of_int 100"
    using q by (simp add: spec_factor_def n_def algebra_simps)
  then have "\<lfloor>(of_int v * spec_factor q + 50) / 100\<rfloor> = n div 100"
    by (simp only: floor_divide_of_int_eq)
  then have t: "trunc_entry q v = max 1 (min 255 (n div 100))"
    by (simp add: trunc_entry_def)
  have "scale_entry (PyInt (200 - q * 2)) v = Inr (max 1 (min (n div 100) 255))"
    unfolding scale_entry_def py_mul.simps py_add.simps py_truediv.simps n_def [symmetric]
    using fd by (simp add: bind_e_def)
  then show ?thesis by (simp add: t min.commute)
qed

lemma chain_ge_int:
  fixes v k :: int and a f :: rat
  assumes v: "1 \<le> v" and f: "a \<le> f"
    and A: "of_int v * a = of_int (100 * k - 50)" and k: "1 \<le> k" "k < 2 ^ 40"
  shows "of_int k \<le> chain f v"
proof -
  have vr: "(0::rat) \<le> of_int v" using v by simp
  have Apos: "(0::rat) < of_int (100 * k - 50)" using k by simp
  have "of_int (100 * k - 50) \<le> of_int v * f"
    using f vr unfolding A [symmetric] by (intro mult_left_mono)
  from fl_mono_pos [OF Apos this] have "of_int (100 * k - 50) \<le> fl (of_int v * f)"
    using fl_of_int [of "100 * k - 50"] k by simp
  then have "(of_int (100 * k) :: rat) \<le> fl (of_int v * f) + 50" by simp
  moreover have "(0::rat) < of_int (100 * k)" using k by simp
  ultimately have "fl (of_int (100 * k)) \<le> fl (fl (of_int v * f) + 50)"
    by (rule fl_mono_pos [rotated])
  then have "(of_int (100 * k) :: rat) \<le> fl (fl (of_int v * f) + 50)"
    using fl_of_int [of "100 * k"] k by simp
  then have "(of_int k :: rat) \<le> fl (fl (of_int v * f) + 50) / 100" by simp
  moreover have "(0::rat) < of_int k" using k by simp
  ultimately have "fl (of_int k) \<le> fl (fl (fl (of_int v * f) + 50) / 100)"
    by (rule fl_mono_pos [rotated])
  then show ?thesis using fl_of_int [of k] k by (simp add: chain_def)
qed

lemma rne_eqI:
  assumes "of_int m - 1 / 2 < y" "y < of_int m + 1 / 2"
  shows "rne y = m"
proof -
  have f: "of_int \<lfloor>y\<rfloor> \<le> y" "y < of_int \<lfloor>y\<rfloor> + 1" by linarith+
  from assms f have "(of_int \<lfloor>y\<rfloor> :: rat) < of_int m + 1 / 2" "(of_int m :: rat) - 3 / 2 < of_int \<lfloor>y\<rfloor>"
    by linarith+
  then have "(of_int \<lfloor>y\<rfloor> :: rat) < of_int (m + 1)" "(of_int (m - 2) :: rat) < of_int \<lfloor>y\<rfloor>"
    by simp_all
  then have "\<lfloor>y\<rfloor> < m + 1" "m - 2 < \<lfloor>y\<rfloor>" by (simp_all only: of_int_less_iff)
  then consider "\<lfloor>y\<rfloor> = m" | "\<lfloor>y\<rfloor> = m - 1" by linarith
  then show ?thesis
  proof cases
    case 1
    with assms(2) show ?thesis by (simp add: rne_def Let_def)
  next
    case 2
    with assms(1) show ?thesis by (simp add: rne_def Let_def)
  qed
qed

lemma fl_eval:
  assumes "2 powi e \<le> x" "x < 2 powi (e + 1)"
    and "of_int m - 1 / 2 < x * 2 powi (52 - e)" "x * 2 powi (52 - e) < of_int m + 1 / 2"
  shows "fl x = of_int m * 2 powi (e - 52)"
  by (simp only: fl_pos_eq [OF assms(1,2)] rne_eqI [OF assms(3,4)])

lemma mod18: "25 * v + 9 = 18 * (k::int) \<Longrightarrow> \<exists>t. v = 18 * t + 9"
  by (rule exI [of _ "13 * k - 18 * v - 7"]) simp

lemma four_dvd:
  fixes q v k :: int
  assumes "100 * v = q * (2 * k - 1)"
  shows "4 dvd q"
proof -
  have "odd (2 * k - 1)" by simp
  then have "coprime (2 ^ 2) (2 * k - 1)"
    by (simp only: coprime_power_left_iff coprime_left_2_iff_odd) simp
  then have c: "coprime 4 (2 * k - 1)" by simp
  have "4 dvd 100 * v" by simp
  then have "4 dvd q * (2 * k - 1)" by (simp only: assms)
  with c show ?thesis by (simp add: coprime_dvd_mult_left_iff)
qed

text \<open>
  The factor \<open>5000 / q\<close> for the qualities that are multiples of 4: rounding to binary64
  does not lower it, except at quality 36.
\<close>

lemma fl_factor_up_4: "5000 / 4 \<le> fl (5000 / 4)"
  using fl_eval [of 10 "5000 / 4" 5497558138880000] by (simp add: power_int_minus)

lemma fl_factor_up_8: "5000 / 8 \<le> fl (5000 / 8)"
  using fl_eval [of 9 "5000 / 8" 5497558138880000] by (simp add: power_int_minus)

lemma fl_factor_up_12: "5000 / 12 \<le> fl (5000 / 12)"
  using fl_eval [of 8 "5000 / 12" 7330077518506667] by (simp add: power_int_minus)

lemma fl_factor_up_16: "5000 / 16 \<le> fl (5000 / 16)"
  using fl_eval [of 8 "5000 / 16" 5497558138880000] by (simp add: power_int_minus)

lemma fl_factor_up_20: "5000 / 20 \<le> fl (5000 / 20)"
  using fl_eval [of 7 "5000 / 20" 8796093022208000] by (simp add: power_int_minus)

lemma fl_factor_up_24: "5000 / 24 \<le> fl (5000 / 24)"
  using fl_eval [of 7 "5000 / 24" 7330077518506667] by (simp add: power_int_minus)

lemma fl_factor_up_28: "5000 / 28 \<le> fl (5000 / 28)"
  using fl_eval [of 7 "5000 / 28" 6282923587291429] by (simp add: power_int_minus)

lemma fl_factor_up_32: "5000 / 32 \<le> fl (5000 / 32)"
  using fl_eval [of 7 "5000 / 32" 5497558138880000] by (simp add: power_int_minus)

lemma fl_factor_up_40: "5000 / 40 \<le> fl (5000 / 40)"
  using fl_eval [of 6 "5000 / 40" 8796093022208000] by (simp add: power_int_minus)

lemma fl_factor_up_44: "5000 / 44 \<le> fl (5000 / 44)"
  using fl_eval [of 6 "5000 / 44" 7996448202007273] by (simp add: power_int_minus)

lemma fl_factor_up_48: "5000 / 48 \<le> fl (5000 / 48)"
  using fl_eval [of 6 "5000 / 48" 7330077518506667] by (simp add: power_int_minus)

lemma fl_factor_up:
  fixes q :: int
  assumes "4 dvd q" "1 \<le> q" "q \<le> 49" "q \<noteq> 36"
  shows "5000 / of_int q \<le> fl (5000 / of_int q)"
proof -
  from assms(1) obtain j where j: "q = 4 * j" by (auto simp: dvd_def)
  with assms(2,3,4) have "1 \<le> j" "j \<le> 12" "j \<noteq> 9" by simp_all
  then have "j = 1 \<or> j = 2 \<or> j = 3 \<or> j = 4 \<or> j = 5 \<or> j = 6 \<or> j = 7 \<or> j = 8
      \<or> j = 10 \<or> j = 11 \<or> j = 12"
  proof -
    have l: "[1..12::int] = [1, 2, 3, 4, 5, 6, 7, 8, 9, 10, 11, 12]" by (simp add: upto.simps)
    from \<open>1 \<le> j\<close> \<open>j \<le> 12\<close> have "j \<in> set [1..12]" by simp
    with \<open>j \<noteq> 9\<close> show ?thesis unfolding l by simp
  qed
  then have "q = 4 \<or> q = 8 \<or> q = 12 \<or> q = 16 \<or> q = 20 \<or> q = 24 \<or> q = 28 \<or> q = 32 \<or> q = 40 \<or> q = 44 \<or> q = 48" using j by auto
  then show ?thesis
    using fl_factor_up_4 fl_factor_up_8 fl_factor_up_12 fl_factor_up_16 fl_factor_up_20 fl_factor_up_24 fl_factor_up_28 fl_factor_up_32 fl_factor_up_40 fl_factor_up_44 fl_factor_up_48
    by (elim disjE) simp_all
qed

text \<open>Quality 36: the rounded factor, and the products that an exact entry needs.\<close>

lemma fl_factor_36: "fl (5000 / 36) = 4886718345671111 / 35184372088832"
  using fl_eval [of 7 "5000 / 36" 4886718345671111] by (simp add: power_int_minus)

lemma fl_product_36_9: "fl (9 * (4886718345671111 / 35184372088832)) = 1250"
  using fl_eval [of 10 "9 * (4886718345671111 / 35184372088832)" 5497558138880000] by (simp add: power_int_minus)

lemma fl_product_36_27: "fl (27 * (4886718345671111 / 35184372088832)) = 3750"
  using fl_eval [of 11 "27 * (4886718345671111 / 35184372088832)" 8246337208320000] by (simp add: power_int_minus)

lemma fl_product_36_45: "fl (45 * (4886718345671111 / 35184372088832)) = 6250"
  using fl_eval [of 12 "45 * (4886718345671111 / 35184372088832)" 6871947673600000] by (simp add: power_int_minus)

lemma fl_product_36_63: "fl (63 * (4886718345671111 / 35184372088832)) = 8750"
  using fl_eval [of 13 "63 * (4886718345671111 / 35184372088832)" 4810363371520000] by (simp add: power_int_minus)

lemma fl_product_36_81: "fl (81 * (4886718345671111 / 35184372088832)) = 11250"
  using fl_eval [of 13 "81 * (4886718345671111 / 35184372088832)" 6184752906240000] by (simp add: power_int_minus)

lemma fl_product_36_99: "fl (99 * (4886718345671111 / 35184372088832)) = 13750"
  using fl_eval [of 13 "99 * (4886718345671111 / 35184372088832)" 7559142440960000] by (simp add: power_int_minus)

lemma fl_product_36_117: "fl (117 * (4886718345671111 / 35184372088832)) = 16250"
  using fl_eval [of 13 "117 * (4886718345671111 / 35184372088832)" 8933531975680000] by (simp add: power_int_minus)

lemma fl_product_36_135: "fl (135 * (4886718345671111 / 35184372088832)) = 18750"
  using fl_eval [of 14 "135 * (4886718345671111 / 35184372088832)" 5153960755200000] by (simp add: power_int_minus)

lemma fl_product_36_153: "fl (153 * (4886718345671111 / 35184372088832)) = 21250"
  using fl_eval [of 14 "153 * (4886718345671111 / 35184372088832)" 5841155522560000] by (simp add: power_int_minus)

lemma fl_product_36_171: "fl (171 * (4886718345671111 / 35184372088832)) = 23750"
  using fl_eval [of 14 "171 * (4886718345671111 / 35184372088832)" 6528350289920000] by (simp add: power_int_minus)

lemma fl_product_36:
  fixes t :: int
  assumes "0 \<le> t" "t \<le> 9"
  shows "fl (of_int (18 * t + 9) * fl (5000 / 36)) = of_int (2500 * t + 1250)"
proof -
  have l: "[0..9::int] = [0, 1, 2, 3, 4, 5, 6, 7, 8, 9]" by (simp add: upto.simps)
  from assms have "t \<in> set [0..9]" by simp
  then have "t = 0 \<or> t = 1 \<or> t = 2 \<or> t = 3 \<or> t = 4 \<or> t = 5 \<or> t = 6 \<or> t = 7 \<or> t = 8 \<or> t = 9" unfolding l by simp
  then show ?thesis
    unfolding fl_factor_36
    using fl_product_36_9 fl_product_36_27 fl_product_36_45 fl_product_36_63 fl_product_36_81 fl_product_36_99 fl_product_36_117 fl_product_36_135 fl_product_36_153 fl_product_36_171
    by (elim disjE) simp_all
qed

lemma chain_ge_from_product:
  fixes v k :: int and f :: rat
  assumes p: "of_int (100 * k - 50) \<le> fl (of_int v * f)" and k: "1 \<le> k" "k < 2 ^ 40"
  shows "of_int k \<le> chain f v"
proof -
  from p have "(of_int (100 * k) :: rat) \<le> fl (of_int v * f) + 50" by simp
  moreover have "(0::rat) < of_int (100 * k)" using k by simp
  ultimately have "fl (of_int (100 * k)) \<le> fl (fl (of_int v * f) + 50)"
    by (rule fl_mono_pos [rotated])
  then have "(of_int (100 * k) :: rat) \<le> fl (fl (of_int v * f) + 50)"
    using fl_of_int [of "100 * k"] k by simp
  then have "(of_int k :: rat) \<le> fl (fl (of_int v * f) + 50) / 100" by simp
  moreover have "(0::rat) < of_int k" using k by simp
  ultimately have "fl (of_int k) \<le> fl (fl (fl (of_int v * f) + 50) / 100)"
    by (rule fl_mono_pos [rotated])
  then show ?thesis using fl_of_int [of k] k by (simp add: chain_def)
qed

lemma exact_entry_ge:
  fixes q v k :: int
  assumes q: "1 \<le> q" "q \<le> 49" and v: "1 \<le> v" "v \<le> 255"
    and N: "100 * v + q = 2 * q * k" and k: "k \<le> 255"
  shows "of_int k \<le> chain (fl (5000 / of_int q)) v"
proof -
  have e: "100 * v = q * (2 * k - 1)" using N by (simp add: algebra_simps)
  have k1: "1 \<le> k"
  proof (rule ccontr)
    assume "\<not> 1 \<le> k"
    then have "k \<le> 0" by simp
    then have "2 * q * k \<le> 0" using q by (simp add: mult_le_0_iff)
    with N v q show False by simp
  qed
  have k2: "k < 2 ^ 40" using k by simp
  have d4: "4 dvd q" by (rule four_dvd [OF e])
  have "v * 5000 = (100 * k - 50) * q" using e by (simp add: algebra_simps)
  then have "(of_int (v * 5000) :: rat) = of_int ((100 * k - 50) * q)" by (simp only:)
  then have A: "of_int v * (5000 / of_int q) = (of_int (100 * k - 50) :: rat)"
    using q by (simp add: field_simps)
  show ?thesis
  proof (cases "q = 36")
    case False
    from fl_factor_up [OF d4 q False] show ?thesis
      by (rule chain_ge_int [OF v(1) _ A k1 k2])
  next
    case True
    from N True have "25 * v + 9 = 18 * k" by simp
    from mod18 [OF this] obtain t where t: "v = 18 * t + 9" by blast
    with \<open>25 * v + 9 = 18 * k\<close> have kt: "k = 25 * t + 13" by simp
    from t v(1) have t0: "0 \<le> t" by simp
    from kt k have t9: "t \<le> 9" by simp
    have "100 * k - 50 = 2500 * t + 1250" using kt by simp
    with fl_product_36 [OF t0 t9]
    have "of_int (100 * k - 50) \<le> fl (of_int v * fl (5000 / of_int q))"
      by (simp add: t True)
    then show ?thesis by (rule chain_ge_from_product [OF _ k1 k2])
  qed
qed

lemma scale_entry_float_factor:
  fixes q v :: int
  assumes q: "1 \<le> q" "q \<le> 49" and v: "1 \<le> v" "v \<le> 255"
  shows "scale_entry (PyFloat (fl (5000 / of_int q))) v = Inr (trunc_entry q v)"
proof -
  define a :: rat where "a = 5000 / of_int q"
  define x :: rat where "x = (of_int v * a + 50) / 100"
  define d where "d = chain (fl a) v"
  define t :: rat where "t = 51010 * 2 powi (- 53)"
  have tv: "t = 51010 / 9007199254740992" by (simp add: t_def power_int_minus)
  note ce = chain_error [OF q v, folded a_def, folded x_def, folded d_def t_def]
  define N where "N = 100 * v + q"
  define D where "D = 2 * q"
  have D: "0 < D" "D \<le> 98" using q by (simp_all add: D_def)
  have Npos: "0 < N" using q v by (simp add: N_def)
  have xND: "x = of_int N / of_int D"
    using q by (simp add: x_def a_def N_def D_def field_simps)
  have fx: "\<lfloor>x\<rfloor> = N div D" unfolding xND by (rule floor_divide_of_int_eq)
  have xpos: "1 / 2 \<le> x"
  proof -
    have "0 \<le> of_int v * a" using v q by (simp add: a_def)
    then show ?thesis by (simp add: x_def)
  qed
  have dpos: "0 \<le> d" using ce(1) xpos unfolding tv by linarith
  have te: "trunc_entry q v = max 1 (min 255 (N div D))"
    using q fx by (simp add: trunc_entry_def spec_factor_def x_def a_def)
  have se: "scale_entry (PyFloat (fl a)) v = Inr (max 1 (min \<lfloor>d\<rfloor> 255))"
    using v dpos by (simp add: scale_entry_float d_def)
  have "min \<lfloor>d\<rfloor> 255 = min 255 (N div D)"
  proof (cases "256 \<le> x")
    case True
    then have "(of_int 255 :: rat) \<le> d" using ce(1) unfolding tv by simp
    then have "255 \<le> \<lfloor>d\<rfloor>" by (simp only: le_floor_iff)
    moreover have "(of_int 255 :: rat) \<le> x" using True by simp
    then have "255 \<le> \<lfloor>x\<rfloor>" by (simp only: le_floor_iff)
    ultimately show ?thesis using fx by simp
  next
    case small: False
    have "\<lfloor>d\<rfloor> = N div D"
    proof (cases "N mod D = 0")
      case False
      have "t * of_int D \<le> t * 98"
        using D(2) by (intro mult_left_mono) (simp_all add: tv)
      then have tD: "t * of_int D < 1" unfolding tv by simp
      show ?thesis
        by (rule floor_near [OF D(1) False ce [unfolded xND] tD])
    next
      case True
      define k where "k = N div D"
      have ND: "N = D * k" using True by (simp add: k_def mod_eq_0_iff_dvd)
      have xk: "x = of_int k" using D(1) by (simp add: xND ND)
      have "(of_int k :: rat) < of_int 256" using small xk by simp
      then have k: "k \<le> 255" by simp
      have "100 * v + q = 2 * q * k" using ND by (simp add: N_def D_def)
      from exact_entry_ge [OF q v this k] have lo: "of_int k \<le> d" by (simp add: d_def a_def)
      have "d < of_int k + 1" using ce(2) unfolding xk tv by linarith
      with lo show ?thesis unfolding k_def [symmetric] by (intro floor_unique)
    qed
    then show ?thesis by (simp add: min.commute)
  qed
  then show ?thesis by (simp add: se [unfolded a_def] te)
qed

lemma trunc_entry_low:
  assumes "1 \<le> q" "q < 50"
  shows "trunc_entry q v = max 1 (min 255 ((100 * v + q) div (2 * q)))"
proof -
  have "(of_int v * spec_factor q + 50) / 100 = (of_int (100 * v + q) :: rat) / of_int (2 * q)"
    using assms by (simp add: spec_factor_def field_simps)
  then have "\<lfloor>(of_int v * spec_factor q + 50) / 100\<rfloor> = (100 * v + q) div (2 * q)"
    by (simp only: floor_divide_of_int_eq)
  then show ?thesis by (simp add: trunc_entry_def)
qed

lemma trunc_entry_high:
  assumes "50 \<le> q"
  shows "trunc_entry q v = max 1 (min 255 ((v * (200 - 2 * q) + 50) div 100))"
proof -
  have "(of_int v * spec_factor q + 50) / 100
      = (of_int (v * (200 - 2 * q) + 50) :: rat) / of_int 100"
    using assms by (simp add: spec_factor_def)
  then have "\<lfloor>(of_int v * spec_factor q + 50) / 100\<rfloor> = (v * (200 - 2 * q) + 50) div 100"
    by (simp only: floor_divide_of_int_eq)
  then show ?thesis by (simp add: trunc_entry_def)
qed

lemma scale_factor_low:
  assumes "1 \<le> q" "q < 50"
  shows "scale_factor q = Inr (PyFloat (fl (5000 / of_int q)))"
  using assms by (simp add: scale_factor_def)

lemma scale_factor_high:
  assumes "50 \<le> q"
  shows "scale_factor q = Inr (PyInt (200 - q * 2))"
  using assms by (simp add: scale_factor_def)

lemma clamp_quality_range: "1 \<le> clamp_quality quality" "clamp_quality quality \<le> 100"
  by (simp_all add: clamp_quality_def)

text \<open>
  Claim C4, as amended. For every quality and every table whose entries lie in 1..255,
  \<open>scale_table\<close> returns the table in which each entry \<open>v\<close> has become
  max 1 (min 255 (floor ((v * factor + 50) / 100))), where the quality is first clamped
  into 1..100, the factor is 5000 / quality below quality 50 and 200 - 2 * quality from 50
  on, and the arithmetic is exact: the quotient is truncated, not rounded, and the
  roundings of the floating-point operations never change the result.
\<close>

theorem scale_table_formula:
  assumes "\<forall>row \<in> set table. \<forall>v \<in> set row. 1 \<le> v \<and> v \<le> 255"
  shows "scale_table table quality
       = Inr (map (map (trunc_entry (clamp_quality quality))) table)"
proof (cases "clamp_quality quality < 50")
  case True
  show ?thesis
    using assms clamp_quality_range(1) [of quality] True
    by (intro scale_table_entries [OF scale_factor_low] scale_entry_float_factor) auto
next
  case False
  show ?thesis
    using assms clamp_quality_range(2) [of quality] False
    by (intro scale_table_entries [OF scale_factor_high] scale_entry_int_factor) auto
qed

theorem scale_table_formula_witness:
  "scale_table (replicate 8 [1, 2, 5, 6, 16, 100, 200, 255]) 35
     = Inr (replicate 8 [1, 3, 7, 9, 23, 143, 255, 255]) \<and>
   scale_table (replicate 8 [1, 2, 5, 6, 16, 100, 200, 255]) 75
     = Inr (replicate 8 [1, 1, 3, 3, 8, 50, 100, 128]) \<and>
   scale_table (replicate 8 [1, 2, 5, 6, 16, 100, 200, 255]) 0
     = Inr (replicate 8 [50, 100, 250, 255, 255, 255, 255, 255])"
  using scale_table_formula [of "replicate 8 [1, 2, 5, 6, 16, 100, 200, 255]" 35]
    scale_table_formula [of "replicate 8 [1, 2, 5, 6, 16, 100, 200, 255]" 75]
    scale_table_formula [of "replicate 8 [1, 2, 5, 6, 16, 100, 200, 255]" 0]
  by (simp add: clamp_quality_def trunc_entry_low trunc_entry_high)

text \<open>
  The claim as worded rounds the quotient. At quality 60 the factor is 80 and the entry 3
  gives (3 * 80 + 50) / 100 = 2.9: the code truncates it to 2, rounding gives 3.
\<close>

theorem scale_table_round_counterexample:
  "scale_table (replicate 8 (replicate 8 3)) 60 = Inr (replicate 8 (replicate 8 2)) \<and>
   spec_round_entry (clamp_quality 60) 3 = 3 \<and>
   scale_table (replicate 8 (replicate 8 3)) 60
     \<noteq> Inr (map (map (spec_round_entry (clamp_quality 60))) (replicate 8 (replicate 8 3)))"
proof -
  have f: "scale_factor (clamp_quality 60) = Inr (PyInt (200 - 60 * 2))"
    by (simp add: scale_factor_def clamp_quality_def)
  have "scale_table (replicate 8 (replicate 8 3)) 60
      = Inr (map (map (trunc_entry 60)) (replicate 8 (replicate 8 3)))"
    by (intro scale_table_entries [OF f] scale_entry_int_factor) auto
  then have a: "scale_table (replicate 8 (replicate 8 3)) 60 = Inr (replicate 8 (replicate 8 2))"
    by (simp add: trunc_entry_high)
  have "rne ((of_int 3 * spec_factor 60 + 50) / 100) = 3"
    by (rule rne_eqI) (simp_all add: spec_factor_def)
  then have b: "spec_round_entry (clamp_quality 60) 3 = 3"
    by (simp add: spec_round_entry_def clamp_quality_def)
  show ?thesis using a b by simp
qed

section \<open>No write before the rebuild\<close>

lemma rebuild_jpeg_other_paths:
  "p \<noteq> output_path \<Longrightarrow>
   snd (rebuild_jpeg segs fm fp sp scaled new_scan output_path fs) p = fs p"
  by (simp add: rebuild_jpeg_def split: prod.splits)

lemma transcode_example: "transcode example_files ''in.jpg'' 50 = Inl KeyError"
proof -
  have p: "parse_jpeg example_files ''in.jpg'' =
      Inr \<lparr>segments = [(192, [8]), (218, [1]), (217, [])], quant_tables = [], huff_tables = [],
           frame_header = Some [8], scan_header = Some [1], scan_data = [18]\<rparr>"
    by (simp add: parse_jpeg_def example_files_def parse_jpeg_bytes_def parsed_init_def
        parse_loop.simps on_segment_def EOI_def DQT_def DHT_def SOF0_def SOS_def)
  have f: "find_frame [(192, [8]), (218, [1]), (217, [])] = Inr (192, [8])"
    by (simp add: find_frame_def DHT_def SOS_def)
  have d: "decode_all [] [] r [] = Inl KeyError" for r
    by (simp add: decode_all.simps dict_get_def)
  show ?thesis
    by (simp add: transcode_def p bind_e_def f d DHT_def)
qed

text \<open>
  Claim C9. When any step of \<open>compress\<close> before the call of \<open>rebuild_jpeg\<close> raises an
  exception (reading and parsing the input, finding the frame header, building the
  Huffman tables, decoding the blocks, scaling the tables, re-encoding the blocks),
  \<open>compress\<close> raises that exception and every file, the output path included, is as it
  was. In every run, a file at another path than the output path is unchanged.
\<close>

theorem compress_atomic:
  "(transcode fs input_path quality = Inl e \<longrightarrow>
      compress fs input_path output_path quality = (Some e, fs)) \<and>
   (p \<noteq> output_path \<longrightarrow> snd (compress fs input_path output_path quality) p = fs p)"
  by (auto simp: compress_def rebuild_jpeg_other_paths split: sum.splits)

theorem compress_atomic_witness:
  "transcode example_files ''in.jpg'' 50 = Inl KeyError \<and>
   compress example_files ''in.jpg'' ''out.jpg'' 50 = (Some KeyError, example_files) \<and>
   example_files ''out.jpg'' = Some [9, 9] \<and>
   ''in.jpg'' \<noteq> ''out.jpg'' \<and>
   snd (compress example_files ''in.jpg'' ''out.jpg'' 50) ''in.jpg'' = example_files ''in.jpg''"
  using compress_atomic [of example_files "''in.jpg''" 50 KeyError "''out.jpg''" "''in.jpg''"]
    transcode_example
  by (simp add: example_files_def)

end
